theory Spec2Isabelle
  imports Main "HOL-Library.Word"
begin

unbundle bit_operations_syntax

section \<open>A decoder for Truevision TGA images\<close>

text \<open>
  The decoder turns the bytes of a TGA file into an RGBA buffer:
  \<open>parseTgaData\<close> reads the 18-byte header (\<open>readHeader\<close>, through \<open>readItem\<close>),
  derives the decoding parameters (\<open>createTgaInfo\<close>), takes the colour map
  (\<open>readColorMap\<close>) and the pixel data, expanding run-length packets
  (\<open>readImageData\<close>), and translates every pixel (\<open>parseImageData\<close>, \<open>getPixel\<close>).

  Conventions of the embedding.
  \<^item> A \<open>Uint8Array\<close> is a list of bytes (\<open>8 word\<close>); its length is fixed: a store by
    index outside the array is ignored, as JavaScript does for typed arrays.
  \<^item> The numbers the decoder computes with are non-negative integers (\<open>nat\<close>). Header
    fields are below \<open>2 ^ 16\<close> and every operand of a bitwise operator is below
    \<open>2 ^ 24\<close>, where JavaScript's conversion to 32-bit integers is the identity.
  \<^item> Reading an array outside its bounds gives \<open>undefined\<close>: a read is a
    \<open>nat option\<close> and \<open>None\<close> is \<open>undefined\<close>.
  \<^item> The \<open>Pointer\<close> object shared by the readers is passed in and returned.
  \<^item> Every \<open>throw\<close>, and every exception the runtime raises, is a value of type
    \<open>error\<close>; a function that can throw returns \<open>error + 'a\<close>.
  \<^item> Allocating a typed array always succeeds (storage limits of the runtime are outside
    the model).
\<close>

subsection \<open>Values, arrays and errors\<close>

type_synonym u8 = "8 word"

text \<open>A JavaScript value that is a number or \<open>undefined\<close>.\<close>

type_synonym jsnum = "nat option"

datatype error =
    NoEnoughData nat nat
      \<comment> \<open>\<open>readItem\<close>: "No enough data to read from start to end."\<close>
  | UnsupportedTrueColorPixelSize nat
      \<comment> \<open>\<open>getPixel\<close>: "Unsupported pixel size: n for true-color image."\<close>
  | UnsupportedPixelSize nat
      \<comment> \<open>\<open>getPixel\<close>: "Unsupported pixel size: n."\<close>
  | UnsupportedColorMapEntrySize nat
      \<comment> \<open>\<open>getColorMapPixel\<close>: "Unsupported color map entry size: n."\<close>
  | TypeError
      \<comment> \<open>raised by the runtime: a method called on \<open>null\<close> (\<open>colorMap!.subarray\<close>)\<close>
  | RangeError
      \<comment> \<open>raised by the runtime: \<open>TypedArray.prototype.set\<close> past the end of the target\<close>

text \<open>An exception ends the computation: a step that failed is passed on, a step that
  returned hands its result to the rest.\<close>

definition andThen :: "error + 'a \<Rightarrow> ('a \<Rightarrow> error + 'b) \<Rightarrow> error + 'b" where
  "andThen m f = (case m of Inl e \<Rightarrow> Inl e | Inr x \<Rightarrow> f x)"

text \<open>\<open>xs[i]\<close> on a \<open>Uint8Array\<close>: the byte as a number, \<open>undefined\<close> out of range.\<close>

definition elemAt :: "u8 list \<Rightarrow> nat \<Rightarrow> jsnum" where
  "elemAt xs i = (if i < length xs then Some (unat (xs ! i)) else None)"

text \<open>The operand conversion of the bitwise operators: \<open>undefined\<close> becomes 0.\<close>

definition toInt32 :: "jsnum \<Rightarrow> nat" where
  "toInt32 v = (case v of None \<Rightarrow> 0 | Some n \<Rightarrow> n)"

text \<open>The conversion on a store into a \<open>Uint8Array\<close>: \<open>undefined\<close> becomes 0, a number
  is taken modulo 256.\<close>

definition toUint8 :: "jsnum \<Rightarrow> u8" where
  "toUint8 v = (case v of None \<Rightarrow> 0 | Some n \<Rightarrow> of_nat n)"

text \<open>The conversion on a store into a \<open>Uint8ClampedArray\<close>: \<open>undefined\<close> becomes 0, a
  number is clamped to 255.\<close>

definition toUint8Clamp :: "jsnum \<Rightarrow> u8" where
  "toUint8Clamp v = (case v of None \<Rightarrow> 0 | Some n \<Rightarrow> of_nat (min n 255))"

text \<open>\<open>xs[i] = b\<close> on a typed array: ignored when \<open>i\<close> is outside the array.\<close>

definition setElem :: "u8 list \<Rightarrow> nat \<Rightarrow> u8 \<Rightarrow> u8 list" where
  "setElem xs i b = (if i < length xs then xs[i := b] else xs)"

text \<open>\<open>xs.subarray(s, e)\<close>: both indices are clamped to the length, and the view is empty
  when the clamped end is not after the clamped start.\<close>

definition subarray :: "u8 list \<Rightarrow> nat \<Rightarrow> nat \<Rightarrow> u8 list" where
  "subarray xs s e =
     (let beginIndex = min s (length xs);
          endIndex = min e (length xs)
      in take (endIndex - beginIndex) (drop beginIndex xs))"

text \<open>\<open>target.set(source, offset)\<close>: a \<open>RangeError\<close> when the source does not fit at the
  offset, otherwise the source's bytes replace the target's from the offset on.\<close>

definition typedArraySet :: "u8 list \<Rightarrow> u8 list \<Rightarrow> nat \<Rightarrow> error + u8 list" where
  "typedArraySet target source offset =
     (if length source + offset > length target then Inl RangeError
      else Inr (take offset target @ source @ drop (offset + length source) target))"

subsection \<open>Header and format descriptor\<close>

record TgaImage =
  imageData :: "u8 list"
  width :: nat
  height :: nat

record TgaHeader =
  idLength :: nat
  colorMapType :: nat
  imageType :: nat
  colorMapStart :: nat
  colorMapLength :: nat
  colorMapEntryDepth :: nat
  xOrigin :: nat
  yOrigin :: nat
  width :: nat
  height :: nat
  pixelDepth :: nat
  descriptor :: nat

record TgaInfo = TgaHeader +
  isIndexed :: bool
  isGrey :: bool
  isRle :: bool
  pixelSize :: nat
  pixelCount :: nat
  colorMapEntrySize :: nat
  alphaDepth :: nat

definition IMAGE_TYPE_GREY :: nat where
  "IMAGE_TYPE_GREY = 3"

text \<open>The loop of \<open>readItem\<close>, \<open>for (let i = end - 1; i >= start; i--)\<close>: the third
  argument counts the bytes still to read, so the byte read next is at \<open>start + k\<close>.
  JavaScript computes \<open>(result << 8) | data[i]\<close> on 32-bit integers; \<open>readHeader\<close> reads
  items of one or two bytes, for which no bit is lost.\<close>

fun readItemLoop :: "u8 list \<Rightarrow> nat \<Rightarrow> nat \<Rightarrow> nat \<Rightarrow> nat" where
  "readItemLoop data start 0 result = result"
| "readItemLoop data start (Suc k) result =
     readItemLoop data start k (push_bit 8 result OR unat (data ! (start + k)))"

definition readItem :: "u8 list \<Rightarrow> nat \<Rightarrow> nat \<Rightarrow> error + (nat \<times> nat)" where
  "readItem data pointer len =
     (let start = pointer; end' = start + len
      in if end' > length data then Inl (NoEnoughData start end')
         else Inr (readItemLoop data start len 0, end'))"

definition readHeader :: "u8 list \<Rightarrow> nat \<Rightarrow> error + (TgaHeader \<times> nat)" where
  "readHeader data p0 =
     andThen (readItem data p0 1) (\<lambda>(v_idLength, p1).
     andThen (readItem data p1 1) (\<lambda>(v_colorMapType, p2).
     andThen (readItem data p2 1) (\<lambda>(v_imageType, p3).
     andThen (readItem data p3 2) (\<lambda>(v_colorMapStart, p4).
     andThen (readItem data p4 2) (\<lambda>(v_colorMapLength, p5).
     andThen (readItem data p5 1) (\<lambda>(v_colorMapEntryDepth, p6).
     andThen (readItem data p6 2) (\<lambda>(v_xOrigin, p7).
     andThen (readItem data p7 2) (\<lambda>(v_yOrigin, p8).
     andThen (readItem data p8 2) (\<lambda>(v_width, p9).
     andThen (readItem data p9 2) (\<lambda>(v_height, p10).
     andThen (readItem data p10 1) (\<lambda>(v_pixelDepth, p11).
     andThen (readItem data p11 1) (\<lambda>(v_descriptor, p12).
       let header = \<lparr>idLength = v_idLength, colorMapType = v_colorMapType,
                      imageType = v_imageType, colorMapStart = v_colorMapStart,
                      colorMapLength = v_colorMapLength,
                      colorMapEntryDepth = v_colorMapEntryDepth,
                      xOrigin = v_xOrigin, yOrigin = v_yOrigin,
                      width = v_width, height = v_height,
                      pixelDepth = v_pixelDepth, descriptor = v_descriptor\<rparr>
       in Inr (if colorMapEntryDepth header = 15
               then header\<lparr>colorMapEntryDepth := 16\<rparr> else header, p12)))))))))))))"

definition createTgaInfo :: "TgaHeader \<Rightarrow> TgaInfo" where
  "createTgaInfo header =
     \<lparr>idLength = idLength header, colorMapType = colorMapType header,
      imageType = imageType header, colorMapStart = colorMapStart header,
      colorMapLength = colorMapLength header,
      colorMapEntryDepth = colorMapEntryDepth header,
      xOrigin = xOrigin header, yOrigin = yOrigin header,
      width = width header, height = height header,
      pixelDepth = pixelDepth header, descriptor = descriptor header,
      isIndexed = (imageType header = 1 \<or> imageType header = 9),
      isGrey = (imageType header AND IMAGE_TYPE_GREY \<noteq> 0),
      isRle = (drop_bit 3 (imageType header) \<noteq> 0),
      pixelSize = drop_bit 3 (pixelDepth header),
      pixelCount = width header * height header,
      colorMapEntrySize = drop_bit 3 (colorMapEntryDepth header),
      alphaDepth = descriptor header AND 15\<rparr>"

subsection \<open>Colour map and pixel data\<close>

text \<open>\<open>readColorMap\<close> returns \<open>null\<close> (\<open>None\<close>) when the header has no colour map, and
  otherwise a view of the source; it never throws.\<close>

definition readColorMap :: "u8 list \<Rightarrow> TgaInfo \<Rightarrow> nat \<Rightarrow> u8 list option \<times> nat" where
  "readColorMap data info pointer =
     (if colorMapType info = 0 then (None, pointer)
      else let entrySize = drop_bit 3 (colorMapEntryDepth info);
               byteCount = colorMapLength info * entrySize
           in (Some (subarray data pointer (pointer + byteCount)), pointer + byteCount))"

text \<open>The loop of a run-length packet:
  \<open>for (let i = 0; i < pixelCount; i++) { result.set(pixel, current); current += pixelSize; }\<close>\<close>

function copyPixels ::
  "u8 list \<Rightarrow> nat \<Rightarrow> nat \<Rightarrow> nat \<Rightarrow> u8 list \<Rightarrow> nat \<Rightarrow> error + (u8 list \<times> nat)" where
  "copyPixels pixel psize packetCount i result current =
     (if i < packetCount then
        (case typedArraySet result pixel current of
           Inl e \<Rightarrow> Inl e
         | Inr result' \<Rightarrow> copyPixels pixel psize packetCount (i + 1) result' (current + psize))
      else Inr (result, current))"
  by pat_completeness auto
termination
  by (relation "measure (\<lambda>(pixel, psize, packetCount, i, result, current). packetCount - i)") auto

text \<open>The loop of a raw packet:
  \<open>for (let i = 0; i < byteCount; i += 1) { result[current++] = data[pointer.value++]; }\<close>\<close>

function copyBytes ::
  "u8 list \<Rightarrow> nat \<Rightarrow> nat \<Rightarrow> u8 list \<Rightarrow> nat \<Rightarrow> nat \<Rightarrow> u8 list \<times> nat \<times> nat" where
  "copyBytes data byteCount i result current pointer =
     (if i < byteCount then
        copyBytes data byteCount (i + 1)
          (setElem result current (toUint8 (elemAt data pointer))) (current + 1) (pointer + 1)
      else (result, current, pointer))"
  by pat_completeness auto
termination
  by (relation "measure (\<lambda>(data, byteCount, i, result, current, pointer). byteCount - i)") auto

declare copyPixels.simps [simp del]
declare copyBytes.simps [simp del]

lemma copyPixels_current:
  "copyPixels pixel psize packetCount i result current = Inr (result', current') \<Longrightarrow>
   current' = current + (packetCount - i) * psize"
proof (induction pixel psize packetCount i result current rule: copyPixels.induct)
  case (1 pixel psize packetCount i result current)
  show ?case
  proof (cases "i < packetCount")
    case True
    with "1.prems" obtain r where r: "typedArraySet result pixel current = Inr r"
      and rec: "copyPixels pixel psize packetCount (i + 1) r (current + psize) = Inr (result', current')"
      by (subst (asm) copyPixels.simps) (auto split: sum.splits)
    from "1.IH" [OF True r rec] have "current' = current + psize + (packetCount - (i + 1)) * psize" .
    also have "\<dots> = current + (Suc (packetCount - (i + 1))) * psize" by simp
    also from True have "Suc (packetCount - (i + 1)) = packetCount - i" by simp
    finally show ?thesis .
  next
    case False
    with "1.prems" show ?thesis by (subst (asm) copyPixels.simps) simp
  qed
qed

lemma copyBytes_current:
  "copyBytes data byteCount i result current pointer = (result', current', pointer') \<Longrightarrow>
   current' = current + (byteCount - i)"
proof (induction data byteCount i result current pointer rule: copyBytes.induct)
  case (1 data byteCount i result current pointer)
  show ?case
  proof (cases "i < byteCount")
    case True
    with "1.prems" have
      "copyBytes data byteCount (i + 1)
         (setElem result current (toUint8 (elemAt data pointer))) (current + 1) (pointer + 1)
       = (result', current', pointer')"
      by (subst (asm) copyBytes.simps) simp
    from "1.IH" [OF True this] True show ?thesis by simp
  next
    case False
    with "1.prems" show ?thesis by (subst (asm) copyBytes.simps) simp
  qed
qed

lemma lt_mult_pos: "(c::nat) < t * p \<Longrightarrow> 0 < p"
  by (cases p) simp_all

text \<open>The packet loop of \<open>readImageData\<close>, \<open>while (current < totalByteCount)\<close>. The
  bound \<open>totalByteCount\<close> is the product the source computes before the loop, so the
  loop is entered only with a positive pixel size, and every packet advances
  \<open>current\<close>.\<close>

function rleLoop ::
  "u8 list \<Rightarrow> nat \<Rightarrow> nat \<Rightarrow> u8 list \<Rightarrow> nat \<Rightarrow> nat \<Rightarrow> error + (u8 list \<times> nat)" where
  "rleLoop data psize totalPixelCount result current pointer =
     (if current < totalPixelCount * psize then
        let header = elemAt data pointer;
            pointer1 = pointer + 1;
            ptype = drop_bit 7 (toInt32 header AND 0x80);
            packetCount = (toInt32 header AND 0x7F) + 1
        in if ptype = 1 then
             let pixel = subarray data pointer1 (pointer1 + psize);
                 pointer2 = pointer1 + psize
             in (case copyPixels pixel psize packetCount 0 result current of
                   Inl e \<Rightarrow> Inl e
                 | Inr (result', current') \<Rightarrow>
                     rleLoop data psize totalPixelCount result' current' pointer2)
           else
             let byteCount = packetCount * psize
             in (case copyBytes data byteCount 0 result current pointer1 of
                   (result', current', pointer') \<Rightarrow>
                     rleLoop data psize totalPixelCount result' current' pointer')
      else Inr (result, pointer))"
  by pat_completeness auto
termination
proof (relation "measure (\<lambda>(data, psize, totalPixelCount, result, current, pointer).
                            totalPixelCount * psize - current)", goal_cases)
  case 1
  show ?case by simp
next
  case (2 data psize totalPixelCount result current pointer header pointer1 ptype
          packetCount pixel pointer2 x2 result' current')
  from 2(1) have "0 < psize" by (rule lt_mult_pos)
  moreover from 2 have "copyPixels pixel psize packetCount 0 result current
                        = Inr (result', current')" by simp
  then have "current' = current + (packetCount - 0) * psize" by (rule copyPixels_current)
  moreover from 2 have "0 < packetCount" by simp
  ultimately have "current < current'" by simp
  with 2(1) show ?case by simp
next
  case (3 data psize totalPixelCount result current pointer header pointer1 ptype
          packetCount byteCount result' y current' pointer')
  from 3(1) have "0 < psize" by (rule lt_mult_pos)
  moreover from 3 have "copyBytes data byteCount 0 result current pointer1
                        = (result', current', pointer')" by simp
  then have "current' = current + (byteCount - 0)" by (rule copyBytes_current)
  moreover from 3 have "0 < packetCount" "byteCount = packetCount * psize" by simp_all
  ultimately have "current < current'" by simp
  with 3(1) show ?case by simp
qed

declare rleLoop.simps [simp del]

definition readImageData :: "u8 list \<Rightarrow> TgaInfo \<Rightarrow> nat \<Rightarrow> error + (u8 list \<times> nat)" where
  "readImageData data info pointer =
     (let totalByteCount = pixelCount info * pixelSize info
      in if \<not> isRle info
         then Inr (subarray data pointer (pointer + totalByteCount), pointer + totalByteCount)
         else rleLoop data (pixelSize info) (pixelCount info)
                (replicate totalByteCount 0) 0 pointer)"

subsection \<open>Pixel translation\<close>

text \<open>A colour is the array \<open>[r, g, b, a]\<close>; a channel read from an entry that is too
  short is \<open>undefined\<close>.\<close>

definition getColorFrom1ByteEntry :: "u8 list \<Rightarrow> jsnum list" where
  "getColorFrom1ByteEntry entry = [elemAt entry 0, elemAt entry 0, elemAt entry 0, Some 255]"

definition getColorFrom2ByteEntry :: "u8 list \<Rightarrow> jsnum list" where
  "getColorFrom2ByteEntry entry =
     (let word16 = push_bit 8 (toInt32 (elemAt entry 1)) OR toInt32 (elemAt entry 0);
          r = drop_bit 10 (word16 AND 0x7C00);
          g = drop_bit 5 (word16 AND 0x03E0);
          b = drop_bit 0 (word16 AND 0x001F)
      in [Some (push_bit 3 r OR drop_bit 2 r),
          Some (push_bit 3 g OR drop_bit 2 g),
          Some (push_bit 3 b OR drop_bit 2 b),
          Some 255])"

definition getGreyColorFrom2ByteEntry :: "u8 list \<Rightarrow> nat \<Rightarrow> jsnum list" where
  "getGreyColorFrom2ByteEntry entry alpha_depth =
     [elemAt entry 0, elemAt entry 0, elemAt entry 0,
      if alpha_depth = 8 then elemAt entry 1 else Some 255]"

definition getColorFrom3ByteEntry :: "u8 list \<Rightarrow> jsnum list" where
  "getColorFrom3ByteEntry entry = [elemAt entry 2, elemAt entry 1, elemAt entry 0, Some 255]"

definition getColorFrom4ByteEntry :: "u8 list \<Rightarrow> nat \<Rightarrow> jsnum list" where
  "getColorFrom4ByteEntry entry alpha_depth =
     (let alpha = (if alpha_depth = 8 then elemAt entry 3 else Some 255)
      in [elemAt entry 2, elemAt entry 1, elemAt entry 0, alpha])"

text \<open>\<open>getColorMapPixel\<close>: the colour map is \<open>null\<close> (\<open>None\<close>) when the file has none, and
  calling \<open>subarray\<close> on it raises a \<open>TypeError\<close>. The index is \<open>undefined\<close> when
  the pixel's byte is missing; then \<open>start\<close> is \<open>NaN\<close> and \<open>subarray(NaN, NaN)\<close> is the
  empty view \<open>subarray(0, 0)\<close>.\<close>

definition getColorMapPixel :: "TgaInfo \<Rightarrow> u8 list option \<Rightarrow> jsnum \<Rightarrow> error + jsnum list" where
  "getColorMapPixel info colorMap index =
     (case colorMap of
        None \<Rightarrow> Inl TypeError
      | Some cm \<Rightarrow>
          let entry = (case index of
                         None \<Rightarrow> subarray cm 0 0
                       | Some i \<Rightarrow>
                           let start = i * colorMapEntrySize info
                           in subarray cm start (start + colorMapEntrySize info))
          in if colorMapEntrySize info = 2 then Inr (getColorFrom2ByteEntry entry)
             else if colorMapEntrySize info = 3 then Inr (getColorFrom3ByteEntry entry)
             else if colorMapEntrySize info = 4
               then Inr (getColorFrom4ByteEntry entry (alphaDepth info))
             else Inl (UnsupportedColorMapEntrySize (colorMapEntrySize info)))"

definition getPixel :: "TgaInfo \<Rightarrow> u8 list \<Rightarrow> u8 list option \<Rightarrow> nat \<Rightarrow> error + jsnum list" where
  "getPixel info rawImageData colorMap index =
     (let start = index * pixelSize info;
          entry = subarray rawImageData start (start + pixelSize info)
      in if pixelSize info = 1 then
           (if isIndexed info then getColorMapPixel info colorMap (elemAt entry 0)
            else if isGrey info then Inr (getColorFrom1ByteEntry entry)
            else Inl (UnsupportedTrueColorPixelSize (pixelSize info)))
         else if pixelSize info = 2 then
           (if isIndexed info then
              let word16 = push_bit 8 (toInt32 (elemAt entry 1)) OR toInt32 (elemAt entry 0)
              in getColorMapPixel info colorMap (Some word16)
            else if isGrey info then Inr (getGreyColorFrom2ByteEntry entry (alphaDepth info))
            else Inr (getColorFrom2ByteEntry entry))
         else if pixelSize info = 3 then Inr (getColorFrom3ByteEntry entry)
         else if pixelSize info = 4 then Inr (getColorFrom4ByteEntry entry (alphaDepth info))
         else Inl (UnsupportedPixelSize (pixelSize info)))"

text \<open>The loop of \<open>parseImageData\<close>, \<open>for (let i = 0; i < pixelCount; i++)\<close>, storing the
  four channels of pixel \<open>i\<close> into the \<open>Uint8ClampedArray\<close>.\<close>

function parseImageDataLoop ::
  "TgaInfo \<Rightarrow> u8 list \<Rightarrow> u8 list option \<Rightarrow> nat \<Rightarrow> u8 list \<Rightarrow> error + u8 list" where
  "parseImageDataLoop info rawImageData colorMap i displayData =
     (if i < pixelCount info then
        (case getPixel info rawImageData colorMap i of
           Inl e \<Rightarrow> Inl e
         | Inr pixel \<Rightarrow>
             let start = i * 4;
                 d0 = setElem displayData start (toUint8Clamp (pixel ! 0));
                 d1 = setElem d0 (start + 1) (toUint8Clamp (pixel ! 1));
                 d2 = setElem d1 (start + 2) (toUint8Clamp (pixel ! 2));
                 d3 = setElem d2 (start + 3) (toUint8Clamp (pixel ! 3))
             in parseImageDataLoop info rawImageData colorMap (i + 1) d3)
      else Inr displayData)"
  by pat_completeness auto
termination
  by (relation "measure (\<lambda>(info, rawImageData, colorMap, i, displayData). pixelCount info - i)")
     auto

declare parseImageDataLoop.simps [simp del]

definition parseImageData :: "TgaInfo \<Rightarrow> u8 list \<Rightarrow> u8 list option \<Rightarrow> error + u8 list" where
  "parseImageData info rawImageData colorMap =
     parseImageDataLoop info rawImageData colorMap 0 (replicate (pixelCount info * 4) 0)"

subsection \<open>The decoder\<close>

definition parseTgaData :: "u8 list \<Rightarrow> error + TgaImage" where
  "parseTgaData data =
     andThen (readHeader data 0) (\<lambda>(header, pointer1).
       let info = createTgaInfo header;
           pointer2 = pointer1 + idLength header;
           (colorMap, pointer3) = readColorMap data info pointer2
       in andThen (readImageData data info pointer3) (\<lambda>(rawImageData, pointer4).
          andThen (parseImageData info rawImageData colorMap) (\<lambda>displayData.
            Inr \<lparr>imageData = displayData, width = width info, height = height info\<rparr>)))"

subsection \<open>The header as laid out in the file\<close>

text \<open>The 18 header bytes read field by field, multi-byte fields little-endian, with no
  normalization: what the file stores.\<close>

definition rawHeader :: "u8 list \<Rightarrow> TgaHeader" where
  "rawHeader data =
     \<lparr>idLength = unat (data ! 0), colorMapType = unat (data ! 1),
      imageType = unat (data ! 2),
      colorMapStart = unat (data ! 3) + 256 * unat (data ! 4),
      colorMapLength = unat (data ! 5) + 256 * unat (data ! 6),
      colorMapEntryDepth = unat (data ! 7),
      xOrigin = unat (data ! 8) + 256 * unat (data ! 9),
      yOrigin = unat (data ! 10) + 256 * unat (data ! 11),
      width = unat (data ! 12) + 256 * unat (data ! 13),
      height = unat (data ! 14) + 256 * unat (data ! 15),
      pixelDepth = unat (data ! 16), descriptor = unat (data ! 17)\<rparr>"

text \<open>The stored header with an entry depth of 15 replaced by 16.\<close>

definition headerOf :: "u8 list \<Rightarrow> TgaHeader" where
  "headerOf data =
     (rawHeader data)\<lparr>colorMapEntryDepth :=
        (if unat (data ! 7) = 15 then 16 else unat (data ! 7))\<rparr>"

text \<open>Offset and length of the header fields, in the order \<open>readHeader\<close> reads them.\<close>

definition headerLayout :: "(nat \<times> nat) list" where
  "headerLayout = [(0, 1), (1, 1), (2, 1), (3, 2), (5, 2), (7, 1),
                   (8, 2), (10, 2), (12, 2), (14, 2), (16, 1), (17, 1)]"

subsection \<open>Sample files\<close>

text \<open>A header for a file with the given image type, colour-map type, colour-map length,
  entry depth, width, height, pixel depth and descriptor (sizes below 256).\<close>

definition sampleHeader :: "u8 \<Rightarrow> u8 \<Rightarrow> u8 \<Rightarrow> u8 \<Rightarrow> u8 \<Rightarrow> u8 \<Rightarrow> u8 \<Rightarrow> u8 \<Rightarrow> u8 list" where
  "sampleHeader itype cmtype cmlen cmdepth w h depth desc =
     [0, cmtype, itype, 0, 0, cmlen, 0, cmdepth, 0, 0, 0, 0, w, 0, h, 0, depth, desc]"

text \<open>A 1 by 1 uncompressed true-colour image of 24 bits.\<close>

definition tga_rgb24 :: "u8 list" where
  "tga_rgb24 = sampleHeader 2 0 0 0 1 1 24 0 @ [0x10, 0x20, 0x30]"

text \<open>A 1 by 1 uncompressed true-colour image of 16 bits whose pixel is the word
  \<open>0x7C00\<close>: red 31, green 0, blue 0.\<close>

definition tga_rgb16_red :: "u8 list" where
  "tga_rgb16_red = sampleHeader 2 0 0 0 1 1 16 0 @ [0x00, 0x7C]"

text \<open>A header whose colour-map entry depth is stored as 15.\<close>

definition tga_depth15 :: "u8 list" where
  "tga_depth15 = sampleHeader 1 1 0 15 0 0 8 0"

text \<open>The descriptor of a run-length encoded true-colour image, 2 by 1, of 24 bits.\<close>

definition info_rle24_2x1 :: TgaInfo where
  "info_rle24_2x1 = createTgaInfo (headerOf (sampleHeader 10 0 0 0 2 1 24 0))"

text \<open>The expansion of a 5-bit channel to 8 bits, \<open>(v << 3) | (v >> 2)\<close>.\<close>

definition expand5 :: "nat \<Rightarrow> nat" where
  "expand5 v = push_bit 3 v OR drop_bit 2 v"

text \<open>A 1 by 1 file of 16 bits whose image type (0) has neither low bit set, holding the
  word \<open>0x7C00\<close>.\<close>

definition tga_type0_16 :: "u8 list" where
  "tga_type0_16 = sampleHeader 0 0 0 0 1 1 16 0 @ [0x00, 0x7C]"

text \<open>A 1 by 1 colour-mapped file of 8 bits with one colour-map entry of 24 bits and the
  pixel index 5.\<close>

definition tga_indexed_oob :: "u8 list" where
  "tga_indexed_oob = sampleHeader 1 1 1 24 1 1 8 0 @ [0xAA, 0xBB, 0xCC] @ [5]"

text \<open>Three files cut short after the header: a true-colour file with no pixel bytes, a
  run-length encoded file whose only packet lacks two of the three bytes of its pixel,
  and a colour-mapped file with neither colour map nor pixel bytes.\<close>

definition tga_rgb24_truncated :: "u8 list" where
  "tga_rgb24_truncated = sampleHeader 2 0 0 0 1 1 24 0"

definition tga_rle24_truncated :: "u8 list" where
  "tga_rle24_truncated = sampleHeader 10 0 0 0 2 1 24 0 @ [0x81, 1]"

definition tga_indexed_truncated :: "u8 list" where
  "tga_indexed_truncated = sampleHeader 1 1 1 24 1 1 8 0"

text \<open>The packet stream as the format describes it. A packet has a count \<open>n\<close> from 1 to
  128 and is one header byte, holding \<open>n - 1\<close> in its low seven bits, followed by its
  payload: a run-length packet (high bit of the header set) carries one pixel, to be
  written \<open>n\<close> times; a raw packet (high bit clear) carries \<open>n\<close> pixels, to be copied.\<close>

datatype packet = RunPacket nat "u8 list" | RawPacket nat "u8 list"

fun packetBytes :: "packet \<Rightarrow> u8 list" where
  "packetBytes (RunPacket n pixel) = of_nat (128 + (n - 1)) # pixel"
| "packetBytes (RawPacket n bytes) = of_nat (n - 1) # bytes"

fun packetOutput :: "packet \<Rightarrow> u8 list" where
  "packetOutput (RunPacket n pixel) = concat (replicate n pixel)"
| "packetOutput (RawPacket n bytes) = bytes"

fun wellFormed :: "nat \<Rightarrow> packet \<Rightarrow> bool" where
  "wellFormed psize (RunPacket n pixel) = (1 \<le> n \<and> n \<le> 128 \<and> length pixel = psize)"
| "wellFormed psize (RawPacket n bytes) = (1 \<le> n \<and> n \<le> 128 \<and> length bytes = n * psize)"

text \<open>The descriptors of run-length encoded grey images of 8 bits, 2 by 1 and 3 by 1.\<close>

definition info_rle8_2x1 :: TgaInfo where
  "info_rle8_2x1 = createTgaInfo (headerOf (sampleHeader 11 0 0 0 2 1 8 0))"

definition info_rle8_3x1 :: TgaInfo where
  "info_rle8_3x1 = createTgaInfo (headerOf (sampleHeader 11 0 0 0 3 1 8 0))"

text \<open>The walk of the packet loop over the packet headers, without the output array: from
  the output position \<open>current\<close> and the source position \<open>pointer\<close>, does the loop come to
  a run-length packet whose last copy would end past the \<open>npix * psize\<close> bytes of the
  output? A run-length packet of count \<open>n\<close> copies its pixel (the bytes of it that the source
  holds) to the positions \<open>current\<close>, \<open>current + psize\<close>, ...,
  \<open>current + (n - 1) * psize\<close>; a raw packet, and a header past the end of the source,
  which reads as a raw packet of one pixel, only advance.\<close>

function reachesOvershoot :: "u8 list \<Rightarrow> nat \<Rightarrow> nat \<Rightarrow> nat \<Rightarrow> nat \<Rightarrow> bool" where
  "reachesOvershoot data psize npix current pointer =
     (if current < npix * psize then
        let header = toInt32 (elemAt data pointer);
            packetCount = (header AND 0x7F) + 1
        in if drop_bit 7 (header AND 0x80) = 1 then
             (if npix * psize < current + (packetCount - 1) * psize
                                  + length (subarray data (pointer + 1) (pointer + 1 + psize))
              then True
              else reachesOvershoot data psize npix (current + packetCount * psize)
                     (pointer + 1 + psize))
           else reachesOvershoot data psize npix (current + packetCount * psize)
                  (pointer + 1 + packetCount * psize)
      else False)"
  by pat_completeness auto
termination
proof (relation "measure (\<lambda>(data, psize, npix, current, pointer). npix * psize - current)",
    goal_cases)
  case 1
  show ?case by simp
next
  case (2 data psize npix current pointer header packetCount)
  from 2(1) have "0 < psize" by (rule lt_mult_pos)
  moreover from 2 have "0 < packetCount" by simp
  ultimately have "current < current + packetCount * psize" by simp
  then have "npix * psize - (current + packetCount * psize) < npix * psize - current"
    using 2(1) by (rule diff_less_mono2)
  then show ?case by (simp only: in_measure prod.case)
next
  case (3 data psize npix current pointer header packetCount)
  from 3(1) have "0 < psize" by (rule lt_mult_pos)
  moreover from 3 have "0 < packetCount" by simp
  ultimately have "current < current + packetCount * psize" by simp
  then have "npix * psize - (current + packetCount * psize) < npix * psize - current"
    using 3(1) by (rule diff_less_mono2)
  then show ?case by (simp only: in_measure prod.case)
qed

declare reachesOvershoot.simps [simp del]

text \<open>The descriptors of colour-mapped images of 8 bits, 1 by 1, whose colour-map entries
  have 16, 24 and 32 bits; the last has an alpha depth of 8.\<close>

definition info_indexed16 :: TgaInfo where
  "info_indexed16 = createTgaInfo (headerOf (sampleHeader 1 1 2 16 1 1 8 0))"

definition info_indexed24 :: TgaInfo where
  "info_indexed24 = createTgaInfo (headerOf (sampleHeader 1 1 3 24 1 1 8 0))"

definition info_indexed32 :: TgaInfo where
  "info_indexed32 = createTgaInfo (headerOf (sampleHeader 1 1 2 32 1 1 8 8))"

section \<open>Properties\<close>

subsection \<open>Bit operations as arithmetic\<close>

lemma push_bit8_or:
  assumes "b < 256"
  shows "push_bit 8 (a::nat) OR b = b + 256 * a"
proof -
  from assms have b: "take_bit 8 b = b" by (simp add: take_bit_nat_eq_self)
  have "push_bit 8 a + take_bit 8 b = push_bit 8 a OR take_bit 8 b"
    by (rule disjunctive_add) (auto simp: bit_push_bit_iff bit_take_bit_iff)
  then show ?thesis by (simp add: b push_bit_eq_mult)
qed

lemma and_mask_shift:
  "drop_bit k ((x::nat) AND push_bit k (mask m)) = (x div 2 ^ k) mod 2 ^ m"
proof -
  have "drop_bit k (x AND push_bit k (mask m)) = take_bit m (drop_bit k x)"
    by (rule bit_eqI)
       (auto simp: bit_drop_bit_eq bit_and_iff bit_push_bit_iff bit_mask_iff bit_take_bit_iff)
  then show ?thesis by (simp add: take_bit_eq_mod drop_bit_eq_div)
qed

lemma and_3_mod: "(x::nat) AND 3 = x mod 4"
  using and_mask_shift [of 0 x 2] by (simp add: mask_eq_exp_minus_1 push_bit_eq_mult)

lemma unat_u8_less: "unat (b :: u8) < 256"
  using unsigned_less [of b, where 'a = nat] by simp

subsection \<open>Reading the header\<close>

lemma andThen_Inr: "andThen (Inr x) f = f x"
  by (simp add: andThen_def)

lemma andThen_Inl: "andThen (Inl e) f = Inl e"
  by (simp add: andThen_def)

lemma readItem_fails:
  "length data < p + n \<Longrightarrow> readItem data p n = Inl (NoEnoughData p (p + n))"
  by (simp add: readItem_def)

lemma readItem_1:
  "p < length data \<Longrightarrow> readItem data p (Suc 0) = Inr (unat (data ! p), Suc p)"
  by (simp add: readItem_def)

lemma readItem_2:
  "p + 2 \<le> length data \<Longrightarrow>
   readItem data p 2 = Inr (unat (data ! p) + 256 * unat (data ! (p + 1)), p + 2)"
  by (simp add: readItem_def numeral_2_eq_2 push_bit8_or unat_u8_less)

lemma readHeader_ok:
  assumes "18 \<le> length data"
  shows "readHeader data 0 = Inr (headerOf data, 18)"
proof -
  from assms have "data \<noteq> []" by auto
  with assms show ?thesis
    by (simp add: readHeader_def readItem_1 readItem_2 andThen_Inr headerOf_def rawHeader_def
          Let_def numeral_2_eq_2 [symmetric])
qed

text \<open>Every field of the header is below \<open>2 ^ 16\<close>.\<close>

lemma headerOf_bounded:
  "idLength (headerOf data) < 256" "colorMapType (headerOf data) < 256"
  "imageType (headerOf data) < 256" "colorMapStart (headerOf data) < 65536"
  "colorMapLength (headerOf data) < 65536" "colorMapEntryDepth (headerOf data) < 256"
  "xOrigin (headerOf data) < 65536" "yOrigin (headerOf data) < 65536"
  "width (headerOf data) < 65536" "height (headerOf data) < 65536"
  "pixelDepth (headerOf data) < 256" "descriptor (headerOf data) < 256"
  using unat_u8_less [of "data ! 0"] unat_u8_less [of "data ! 1"] unat_u8_less [of "data ! 2"]
    unat_u8_less [of "data ! 3"] unat_u8_less [of "data ! 4"] unat_u8_less [of "data ! 5"]
    unat_u8_less [of "data ! 6"] unat_u8_less [of "data ! 7"] unat_u8_less [of "data ! 8"]
    unat_u8_less [of "data ! 9"] unat_u8_less [of "data ! 10"] unat_u8_less [of "data ! 11"]
    unat_u8_less [of "data ! 12"] unat_u8_less [of "data ! 13"] unat_u8_less [of "data ! 14"]
    unat_u8_less [of "data ! 15"] unat_u8_less [of "data ! 16"] unat_u8_less [of "data ! 17"]
  by (simp_all add: headerOf_def rawHeader_def)

lemma readHeader_short:
  assumes "length data < 18"
  shows "\<exists>s l. find (\<lambda>(s, l). length data < s + l) headerLayout = Some (s, l) \<and>
               readHeader data 0 = Inl (NoEnoughData s (s + l))"
proof -
  let ?n = "length data"
  from assms consider
      (idLength) "?n < 1"
    | (colorMapType) "1 \<le> ?n" "?n < 2"
    | (imageType) "2 \<le> ?n" "?n < 3"
    | (colorMapStart) "3 \<le> ?n" "?n < 5"
    | (colorMapLength) "5 \<le> ?n" "?n < 7"
    | (colorMapEntryDepth) "7 \<le> ?n" "?n < 8"
    | (xOrigin) "8 \<le> ?n" "?n < 10"
    | (yOrigin) "10 \<le> ?n" "?n < 12"
    | (width) "12 \<le> ?n" "?n < 14"
    | (height) "14 \<le> ?n" "?n < 16"
    | (pixelDepth) "16 \<le> ?n" "?n < 17"
    | (descriptor) "17 \<le> ?n" "?n < 18"
    by linarith
  then show ?thesis
    by cases (simp_all add: readHeader_def readItem_def andThen_def headerLayout_def)
qed

subsection \<open>Length of the output\<close>

lemma length_setElem: "length (setElem xs i b) = length xs"
  by (simp add: setElem_def)

lemma parseImageDataLoop_length:
  "parseImageDataLoop info raw cm i d = Inr d' \<Longrightarrow> length d' = length d"
proof (induction info raw cm i d rule: parseImageDataLoop.induct)
  case (1 info raw cm i d)
  show ?case
  proof (cases "i < pixelCount info")
    case True
    with "1.prems" obtain pixel where px: "getPixel info raw cm i = Inr pixel"
      and rec: "parseImageDataLoop info raw cm (i + 1)
                  (setElem (setElem (setElem (setElem d (i * 4) (toUint8Clamp (pixel ! 0)))
                     (i * 4 + 1) (toUint8Clamp (pixel ! 1)))
                     (i * 4 + 2) (toUint8Clamp (pixel ! 2)))
                     (i * 4 + 3) (toUint8Clamp (pixel ! 3))) = Inr d'"
      by (subst (asm) parseImageDataLoop.simps) (auto split: sum.splits simp: Let_def)
    from "1.IH" [OF True px refl refl refl refl refl rec] show ?thesis
      by (simp add: length_setElem)
  next
    case False
    with "1.prems" show ?thesis by (subst (asm) parseImageDataLoop.simps) simp
  qed
qed

lemma parseImageData_length:
  "parseImageData info raw cm = Inr d \<Longrightarrow> length d = pixelCount info * 4"
  by (auto simp: parseImageData_def dest: parseImageDataLoop_length)

lemma parseTgaData_Inr:
  assumes "parseTgaData data = Inr out"
  shows "18 \<le> length data \<and>
         TgaImage.width out = width (headerOf data) \<and>
         TgaImage.height out = height (headerOf data) \<and>
         length (imageData out) = width (headerOf data) * height (headerOf data) * 4"
proof -
  have len: "18 \<le> length data"
  proof (rule ccontr)
    assume "\<not> 18 \<le> length data"
    then have "length data < 18" by simp
    from readHeader_short [OF this] assms show False
      by (auto simp: parseTgaData_def andThen_Inl)
  qed
  let ?info = "createTgaInfo (headerOf data)"
  obtain cm p3 where cm: "readColorMap data ?info (18 + idLength (headerOf data)) = (cm, p3)"
    by (cases "readColorMap data ?info (18 + idLength (headerOf data))")
  from assms obtain raw p4 d where "readImageData data ?info p3 = Inr (raw, p4)"
    and d: "parseImageData ?info raw cm = Inr d"
    and out: "out = \<lparr>imageData = d, width = width ?info, height = height ?info\<rparr>"
    by (auto simp: parseTgaData_def readHeader_ok [OF len] andThen_def cm Let_def
             split: sum.splits)
  from parseImageData_length [OF d] have "length d = width (headerOf data) * height (headerOf data) * 4"
    by (simp add: createTgaInfo_def)
  with len out show ?thesis by (simp add: createTgaInfo_def)
qed

subsection \<open>The packet loop keeps the length of the output\<close>

lemma typedArraySet_length:
  "typedArraySet target source offset = Inr t \<Longrightarrow> length t = length target"
  by (auto simp: typedArraySet_def split: if_splits)

lemma typedArraySet_error:
  "typedArraySet target source offset = Inl e \<Longrightarrow> e = RangeError"
  by (auto simp: typedArraySet_def split: if_splits)

lemma copyPixels_length:
  "copyPixels pixel psize n i result current = Inr (result', current') \<Longrightarrow>
   length result' = length result"
proof (induction pixel psize n i result current rule: copyPixels.induct)
  case (1 pixel psize n i result current)
  show ?case
  proof (cases "i < n")
    case True
    with "1.prems" obtain r where r: "typedArraySet result pixel current = Inr r"
      and rec: "copyPixels pixel psize n (i + 1) r (current + psize) = Inr (result', current')"
      by (subst (asm) copyPixels.simps) (auto split: sum.splits)
    from "1.IH" [OF True r rec] typedArraySet_length [OF r] show ?thesis by simp
  next
    case False
    with "1.prems" show ?thesis by (subst (asm) copyPixels.simps) simp
  qed
qed

lemma copyPixels_error:
  "copyPixels pixel psize n i result current = Inl e \<Longrightarrow> e = RangeError"
proof (induction pixel psize n i result current rule: copyPixels.induct)
  case (1 pixel psize n i result current)
  show ?case
  proof (cases "i < n")
    case True
    show ?thesis
    proof (cases "typedArraySet result pixel current")
      case (Inl e')
      with True "1.prems" have "e = e'" by (subst (asm) copyPixels.simps) simp
      with typedArraySet_error [OF Inl] show ?thesis by simp
    next
      case (Inr r)
      with True "1.prems" have "copyPixels pixel psize n (i + 1) r (current + psize) = Inl e"
        by (subst (asm) copyPixels.simps) simp
      from "1.IH" [OF True Inr this] show ?thesis .
    qed
  next
    case False
    with "1.prems" show ?thesis by (subst (asm) copyPixels.simps) simp
  qed
qed

lemma copyBytes_length:
  "copyBytes data n i result current pointer = (result', current', pointer') \<Longrightarrow>
   length result' = length result"
proof (induction data n i result current pointer rule: copyBytes.induct)
  case (1 data n i result current pointer)
  show ?case
  proof (cases "i < n")
    case True
    with "1.prems" have
      "copyBytes data n (i + 1) (setElem result current (toUint8 (elemAt data pointer)))
         (current + 1) (pointer + 1) = (result', current', pointer')"
      by (subst (asm) copyBytes.simps) simp
    from "1.IH" [OF True this] show ?thesis by (simp add: length_setElem)
  next
    case False
    with "1.prems" show ?thesis by (subst (asm) copyBytes.simps) simp
  qed
qed

text \<open>One packet of the loop, as a function of the state.\<close>

lemma rleLoop_done:
  "\<not> current < npix * psize \<Longrightarrow> rleLoop data psize npix result current pointer = Inr (result, pointer)"
  by (subst rleLoop.simps) simp

lemma rleLoop_run:
  assumes "current < npix * psize"
    and "drop_bit 7 (toInt32 (elemAt data pointer) AND 0x80) = 1"
  shows "rleLoop data psize npix result current pointer =
    (case copyPixels (subarray data (pointer + 1) (pointer + 1 + psize)) psize
            ((toInt32 (elemAt data pointer) AND 0x7F) + 1) 0 result current of
       Inl e \<Rightarrow> Inl e
     | Inr (result', current') \<Rightarrow> rleLoop data psize npix result' current' (pointer + 1 + psize))"
  by (subst rleLoop.simps) (simp only: Let_def assms if_True simp_thms)

lemma rleLoop_raw:
  assumes "current < npix * psize"
    and "drop_bit 7 (toInt32 (elemAt data pointer) AND 0x80) \<noteq> 1"
  shows "rleLoop data psize npix result current pointer =
    (case copyBytes data (((toInt32 (elemAt data pointer) AND 0x7F) + 1) * psize) 0
            result current (pointer + 1) of
       (result', current', pointer') \<Rightarrow> rleLoop data psize npix result' current' pointer')"
  by (subst rleLoop.simps) (simp only: Let_def assms if_True if_False simp_thms)

lemma rleLoop_length:
  "rleLoop data psize npix result current pointer = Inr (result', pointer') \<Longrightarrow>
   length result' = length result"
proof (induction data psize npix result current pointer rule: rleLoop.induct)
  case (1 data psize npix result current pointer)
  show ?case
  proof (cases "current < npix * psize")
    case False
    with "1.prems" show ?thesis by (simp add: rleLoop_done)
  next
    case True
    show ?thesis
    proof (cases "drop_bit 7 (toInt32 (elemAt data pointer) AND 0x80) = 1")
      case run: True
      from "1.prems" obtain r c where
        cp: "copyPixels (subarray data (pointer + 1) (pointer + 1 + psize)) psize
               ((toInt32 (elemAt data pointer) AND 0x7F) + 1) 0 result current = Inr (r, c)"
        and rec: "rleLoop data psize npix r c (pointer + 1 + psize) = Inr (result', pointer')"
        by (auto simp: rleLoop_run [OF True run] split: sum.splits)
      from "1.IH"(1) [OF True refl refl refl refl run refl refl cp refl rec]
        copyPixels_length [OF cp] show ?thesis by simp
    next
      case raw: False
      obtain r c p where
        cb: "copyBytes data (((toInt32 (elemAt data pointer) AND 0x7F) + 1) * psize) 0
               result current (pointer + 1) = (r, c, p)"
        by (rule prod_cases3)
      with "1.prems" have rec: "rleLoop data psize npix r c p = Inr (result', pointer')"
        by (simp add: rleLoop_raw [OF True raw])
      from "1.IH"(2) [OF True refl refl refl refl raw refl cb [symmetric] refl rec]
        copyBytes_length [OF cb] show ?thesis by simp
    qed
  qed
qed

lemma rleLoop_error:
  "rleLoop data psize npix result current pointer = Inl e \<Longrightarrow> e = RangeError"
proof (induction data psize npix result current pointer rule: rleLoop.induct)
  case (1 data psize npix result current pointer)
  show ?case
  proof (cases "current < npix * psize")
    case False
    with "1.prems" show ?thesis by (simp add: rleLoop_done)
  next
    case True
    show ?thesis
    proof (cases "drop_bit 7 (toInt32 (elemAt data pointer) AND 0x80) = 1")
      case run: True
      show ?thesis
      proof (cases "copyPixels (subarray data (pointer + 1) (pointer + 1 + psize)) psize
               ((toInt32 (elemAt data pointer) AND 0x7F) + 1) 0 result current")
        case (Inl e')
        with "1.prems" have "e = e'" by (simp add: rleLoop_run [OF True run])
        with copyPixels_error [OF Inl] show ?thesis by simp
      next
        case (Inr rc)
        obtain r c where rc: "rc = (r, c)" by (cases rc)
        with Inr "1.prems" have rec: "rleLoop data psize npix r c (pointer + 1 + psize) = Inl e"
          by (simp add: rleLoop_run [OF True run])
        from Inr rc have cp: "copyPixels (subarray data (pointer + 1) (pointer + 1 + psize)) psize
               ((toInt32 (elemAt data pointer) AND 0x7F) + 1) 0 result current = Inr (r, c)"
          by simp
        from "1.IH"(1) [OF True refl refl refl refl run refl refl cp refl rec] show ?thesis .
      qed
    next
      case raw: False
      obtain r c p where
        cb: "copyBytes data (((toInt32 (elemAt data pointer) AND 0x7F) + 1) * psize) 0
               result current (pointer + 1) = (r, c, p)"
        by (rule prod_cases3)
      with "1.prems" have rec: "rleLoop data psize npix r c p = Inl e"
        by (simp add: rleLoop_raw [OF True raw])
      from "1.IH"(2) [OF True refl refl refl refl raw refl cb [symmetric] refl rec]
      show ?thesis .
    qed
  qed
qed

lemma info_rle24_2x1_fields:
  "isRle info_rle24_2x1" "pixelSize info_rle24_2x1 = 3" "pixelCount info_rle24_2x1 = 2"
  by (simp_all add: info_rle24_2x1_def createTgaInfo_def headerOf_def rawHeader_def
        sampleHeader_def drop_bit_eq_div)

subsection \<open>Views and entries\<close>

lemma subarray_eq: "subarray xs s e = take (e - s) (drop s xs)"
  by (cases "s \<le> length xs") (auto simp: subarray_def Let_def min_def)

lemma subarray_empty: "length xs \<le> s \<Longrightarrow> subarray xs s e = []"
  by (simp add: subarray_eq)

lemma elemAt_Nil: "elemAt [] k = None"
  by (simp add: elemAt_def)

lemma r_field: "drop_bit 10 ((w::nat) AND 0x7C00) = (w div 1024) mod 32"
  using and_mask_shift [of 10 w 5] by (simp add: mask_eq_exp_minus_1 push_bit_eq_mult)

lemma g_field: "drop_bit 5 ((w::nat) AND 0x03E0) = (w div 32) mod 32"
  using and_mask_shift [of 5 w 5] by (simp add: mask_eq_exp_minus_1 push_bit_eq_mult)

lemma b_field: "drop_bit 0 ((w::nat) AND 0x1F) = w mod 32"
  using and_mask_shift [of 0 w 5] by (simp add: mask_eq_exp_minus_1 push_bit_eq_mult)

lemma expand5_arith:
  assumes "v < 32"
  shows "expand5 v = 8 * v + v div 4"
proof -
  from assms have "drop_bit 2 v < 8" by (simp add: drop_bit_eq_div)
  then have t: "take_bit 3 (drop_bit 2 v) = drop_bit 2 v" by (simp add: take_bit_nat_eq_self)
  have "push_bit 3 v + take_bit 3 (drop_bit 2 v) = push_bit 3 v OR take_bit 3 (drop_bit 2 v)"
    by (rule disjunctive_add) (auto simp: bit_push_bit_iff bit_take_bit_iff)
  then have "push_bit 3 v + drop_bit 2 v = push_bit 3 v OR drop_bit 2 v" by (simp only: t)
  then show ?thesis by (simp add: expand5_def push_bit_eq_mult drop_bit_eq_div)
qed

lemma getColorFrom2ByteEntry_word:
  "getColorFrom2ByteEntry [lo, hi] =
     (let w = unat lo + 256 * unat hi
      in [Some (expand5 ((w div 1024) mod 32)), Some (expand5 ((w div 32) mod 32)),
          Some (expand5 (w mod 32)), Some 255])"
proof -
  have e: "elemAt [lo, hi] 0 = Some (unat lo)" "elemAt [lo, hi] 1 = Some (unat hi)"
    by (simp_all add: elemAt_def)
  have w: "push_bit 8 (toInt32 (Some (unat hi))) OR toInt32 (Some (unat lo))
             = unat lo + 256 * unat hi"
    by (simp add: toInt32_def push_bit8_or unat_u8_less)
  show ?thesis
    by (simp only: getColorFrom2ByteEntry_def e w Let_def r_field g_field b_field expand5_def)
qed

lemma two_bytes:
  assumes "s + 2 \<le> length xs"
  shows "subarray xs s (s + 2) = [xs ! s, xs ! (s + 1)]"
proof -
  from assms have "take 2 (drop s xs) = [xs ! s, xs ! (s + 1)]"
    by (simp add: numeral_2_eq_2 take_Suc_conv_app_nth nth_append)
  then show ?thesis by (simp add: subarray_eq)
qed

lemma info_type0_16:
  "pixelSize (createTgaInfo (headerOf tga_type0_16)) = 2"
  "\<not> isIndexed (createTgaInfo (headerOf tga_type0_16))"
  "\<not> isGrey (createTgaInfo (headerOf tga_type0_16))"
  by (simp_all add: createTgaInfo_def headerOf_def rawHeader_def tga_type0_16_def
        sampleHeader_def drop_bit_eq_div IMAGE_TYPE_GREY_def)

lemma black_entries:
  "getColorFrom2ByteEntry [] = [Some 0, Some 0, Some 0, Some 255]"
  "getColorFrom3ByteEntry [] = [None, None, None, Some 255]"
  "getColorFrom4ByteEntry [] a = [None, None, None, if a = 8 then None else Some 255]"
  by (simp_all add: getColorFrom2ByteEntry_def getColorFrom3ByteEntry_def
        getColorFrom4ByteEntry_def elemAt_Nil toInt32_def Let_def)

lemma getColorMapPixel_out_of_range:
  assumes "length cm \<le> i * colorMapEntrySize info"
  shows "getColorMapPixel info (Some cm) (Some i) =
     (if colorMapEntrySize info = 2 then Inr [Some 0, Some 0, Some 0, Some 255]
      else if colorMapEntrySize info = 3 then Inr [None, None, None, Some 255]
      else if colorMapEntrySize info = 4
        then Inr [None, None, None, if alphaDepth info = 8 then None else Some 255]
      else Inl (UnsupportedColorMapEntrySize (colorMapEntrySize info)))"
  using assms by (simp add: getColorMapPixel_def Let_def subarray_empty black_entries)

subsection \<open>Errors after the header\<close>

lemma getColorMapPixel_error:
  "getColorMapPixel info colorMap index = Inl e \<Longrightarrow> e \<noteq> NoEnoughData s t"
  by (auto simp: getColorMapPixel_def Let_def split: option.splits if_splits)

lemma getPixel_error:
  "getPixel info raw colorMap index = Inl e \<Longrightarrow> e \<noteq> NoEnoughData s t"
  by (auto simp: getPixel_def Let_def split: if_splits dest: getColorMapPixel_error)

lemma parseImageDataLoop_error:
  "parseImageDataLoop info raw cm i d = Inl e \<Longrightarrow> e \<noteq> NoEnoughData s t"
proof (induction info raw cm i d rule: parseImageDataLoop.induct)
  case (1 info raw cm i d)
  show ?case
  proof (cases "i < pixelCount info")
    case True
    show ?thesis
    proof (cases "getPixel info raw cm i")
      case (Inl e')
      with True "1.prems" have "e = e'" by (subst (asm) parseImageDataLoop.simps) simp
      with getPixel_error [OF Inl] show ?thesis by simp
    next
      case (Inr pixel)
      with True "1.prems" have rec: "parseImageDataLoop info raw cm (i + 1)
                  (setElem (setElem (setElem (setElem d (i * 4) (toUint8Clamp (pixel ! 0)))
                     (i * 4 + 1) (toUint8Clamp (pixel ! 1)))
                     (i * 4 + 2) (toUint8Clamp (pixel ! 2)))
                     (i * 4 + 3) (toUint8Clamp (pixel ! 3))) = Inl e"
        by (subst (asm) parseImageDataLoop.simps) (simp add: Let_def)
      from "1.IH" [OF True Inr refl refl refl refl refl rec] show ?thesis .
    qed
  next
    case False
    with "1.prems" show ?thesis by (subst (asm) parseImageDataLoop.simps) simp
  qed
qed

lemma readImageData_error:
  "readImageData data info p = Inl e \<Longrightarrow> e = RangeError"
  by (auto simp: readImageData_def Let_def split: if_splits dest: rleLoop_error)

lemma parseTgaData_after_header:
  assumes "18 \<le> length data"
  shows "parseTgaData data \<noteq> Inl (NoEnoughData s t)"
proof
  assume err: "parseTgaData data = Inl (NoEnoughData s t)"
  let ?info = "createTgaInfo (headerOf data)"
  obtain cm p3 where cm: "readColorMap data ?info (18 + idLength (headerOf data)) = (cm, p3)"
    by (cases "readColorMap data ?info (18 + idLength (headerOf data))")
  show False
  proof (cases "readImageData data ?info p3")
    case (Inl e)
    with err have "e = NoEnoughData s t"
      by (simp add: parseTgaData_def readHeader_ok [OF assms] andThen_def cm Let_def)
    with readImageData_error [OF Inl] show False by simp
  next
    case (Inr rp)
    obtain raw p4 where rp: "rp = (raw, p4)" by (cases rp)
    with Inr err have "parseImageData ?info raw cm = Inl (NoEnoughData s t)"
      by (auto simp: parseTgaData_def readHeader_ok [OF assms] andThen_def cm Let_def
               split: sum.splits)
    then show False
      by (auto simp: parseImageData_def dest: parseImageDataLoop_error)
  qed
qed

text \<open>Past the end of the source every packet header reads as \<open>undefined\<close>: a raw
  packet of one pixel, whose bytes are stored as 0.\<close>

lemma elemAt_exhausted: "length data \<le> p \<Longrightarrow> elemAt data p = None"
  by (simp add: elemAt_def)

lemma setElem_zeros: "setElem (replicate m 0) c (toUint8 None) = replicate m 0"
  by (simp add: setElem_def toUint8_def list_eq_iff_nth_eq nth_list_update)

lemma copyBytes_exhausted:
  "length data \<le> pointer \<Longrightarrow>
   copyBytes data n i (replicate m 0) current pointer
     = (replicate m 0, current + (n - i), pointer + (n - i))"
proof (induction data n i "replicate m (0 :: u8)" current pointer rule: copyBytes.induct)
  case (1 data n i current pointer)
  show ?case
  proof (cases "i < n")
    case True
    from "1.prems" have e: "elemAt data pointer = None" by (rule elemAt_exhausted)
    have s: "setElem (replicate m 0) current (toUint8 (elemAt data pointer)) = replicate m 0"
      by (simp only: e setElem_zeros)
    from "1.prems" have next_p: "length data \<le> pointer + 1" by simp
    from True obtain k where k: "n - i = Suc k" "n - (i + 1) = k"
      by (cases "n - i") auto
    have "copyBytes data n i (replicate m 0) current pointer
            = copyBytes data n (i + 1) (replicate m 0) (current + 1) (pointer + 1)"
      using True by (subst copyBytes.simps) (simp add: s)
    also have "\<dots> = (replicate m 0, current + 1 + k, pointer + 1 + k)"
      using "1.hyps" [OF True s next_p] unfolding k .
    finally show ?thesis by (simp add: k)
  next
    case False
    then show ?thesis by (subst copyBytes.simps) simp
  qed
qed

lemma rleLoop_exhausted:
  "length data \<le> pointer \<Longrightarrow>
   \<exists>pointer'. rleLoop data psize npix (replicate m 0) current pointer
                = Inr (replicate m 0, pointer')"
proof (induction data psize npix "replicate m (0 :: u8)" current pointer rule: rleLoop.induct)
  case (1 data psize npix current pointer)
  show ?case
  proof (cases "current < npix * psize")
    case False
    then show ?thesis by (simp add: rleLoop_done)
  next
    case True
    from "1.prems" have e: "elemAt data pointer = None" by (rule elemAt_exhausted)
    have raw: "drop_bit 7 (toInt32 (elemAt data pointer) AND 0x80) \<noteq> 1"
      by (simp add: e toInt32_def)
    from "1.prems" have "length data \<le> pointer + 1" by simp
    then have cb: "copyBytes data (((toInt32 (elemAt data pointer) AND 0x7F) + 1) * psize) 0
                     (replicate m 0) current (pointer + 1)
                   = (replicate m 0,
                      current + ((toInt32 (elemAt data pointer) AND 0x7F) + 1) * psize,
                      pointer + 1 + ((toInt32 (elemAt data pointer) AND 0x7F) + 1) * psize)"
      using copyBytes_exhausted
        [of data "pointer + 1" "((toInt32 (elemAt data pointer) AND 0x7F) + 1) * psize" 0 m current]
      by simp
    from "1.prems"
    have "length data \<le> pointer + 1 + ((toInt32 (elemAt data pointer) AND 0x7F) + 1) * psize"
      by simp
    from "1.hyps"(2) [OF True refl refl refl refl raw refl cb [symmetric] refl this]
    show ?thesis
      by (simp only: rleLoop_raw [OF True raw] cb prod.case)
  qed
qed

lemma readImageData_exhausted:
  "isRle info \<Longrightarrow> length data \<le> p \<Longrightarrow>
   \<exists>p'. readImageData data info p = Inr (replicate (pixelCount info * pixelSize info) 0, p')"
  using rleLoop_exhausted [of data p "pixelSize info" "pixelCount info"
          "pixelCount info * pixelSize info" 0]
  by (simp add: readImageData_def)

subsection \<open>What the decoder does not read\<close>

lemma elemAt_update: "j \<noteq> p \<Longrightarrow> elemAt (data[j := v]) p = elemAt data p"
  by (simp add: elemAt_def)

lemma subarray_update: "j < s \<Longrightarrow> subarray (data[j := v]) s e = subarray data s e"
  by (simp add: subarray_eq drop_update_cancel)

lemma copyBytes_pointer:
  "copyBytes data n i result current pointer = (result', current', pointer') \<Longrightarrow>
   pointer \<le> pointer'"
proof (induction data n i result current pointer rule: copyBytes.induct)
  case (1 data n i result current pointer)
  show ?case
  proof (cases "i < n")
    case True
    with "1.prems" have
      "copyBytes data n (i + 1) (setElem result current (toUint8 (elemAt data pointer)))
         (current + 1) (pointer + 1) = (result', current', pointer')"
      by (subst (asm) copyBytes.simps) simp
    from "1.IH" [OF True this] show ?thesis by simp
  next
    case False
    with "1.prems" show ?thesis by (subst (asm) copyBytes.simps) simp
  qed
qed

lemma copyBytes_update:
  "j < pointer \<Longrightarrow>
   copyBytes (data[j := v]) n i result current pointer = copyBytes data n i result current pointer"
proof (induction data n i result current pointer rule: copyBytes.induct)
  case (1 data n i result current pointer)
  show ?case
  proof (cases "i < n")
    case True
    from "1.prems" have e: "elemAt (data[j := v]) pointer = elemAt data pointer"
      by (simp add: elemAt_update)
    from "1.prems" have "j < pointer + 1" by simp
    from "1.IH" [OF True this] True e show ?thesis
      by (subst copyBytes.simps, subst (2) copyBytes.simps) simp
  next
    case False
    then show ?thesis by (subst copyBytes.simps, subst (2) copyBytes.simps) simp
  qed
qed

lemma rleLoop_update:
  "j < pointer \<Longrightarrow>
   rleLoop (data[j := v]) psize npix result current pointer
     = rleLoop data psize npix result current pointer"
proof (induction data psize npix result current pointer rule: rleLoop.induct)
  case (1 data psize npix result current pointer)
  from "1.prems" have e: "elemAt (data[j := v]) pointer = elemAt data pointer"
    by (simp add: elemAt_update)
  show ?case
  proof (cases "current < npix * psize")
    case False
    then show ?thesis by (simp add: rleLoop_done)
  next
    case True
    show ?thesis
    proof (cases "drop_bit 7 (toInt32 (elemAt data pointer) AND 0x80) = 1")
      case run: True
      from run e have run': "drop_bit 7 (toInt32 (elemAt (data[j := v]) pointer) AND 0x80) = 1"
        by simp
      from "1.prems" have s: "subarray (data[j := v]) (pointer + 1) (pointer + 1 + psize)
                 = subarray data (pointer + 1) (pointer + 1 + psize)"
        by (simp add: subarray_update)
      have L: "rleLoop (data[j := v]) psize npix result current pointer =
        (case copyPixels (subarray data (pointer + 1) (pointer + 1 + psize)) psize
                ((toInt32 (elemAt data pointer) AND 0x7F) + 1) 0 result current of
           Inl e \<Rightarrow> Inl e
         | Inr (result', current') \<Rightarrow>
             rleLoop (data[j := v]) psize npix result' current' (pointer + 1 + psize))"
        by (simp only: rleLoop_run [OF True run'] e s)
      show ?thesis
      proof (cases "copyPixels (subarray data (pointer + 1) (pointer + 1 + psize)) psize
               ((toInt32 (elemAt data pointer) AND 0x7F) + 1) 0 result current")
        case (Inl e')
        then show ?thesis
          by (simp only: L rleLoop_run [OF True run] sum.case)
      next
        case (Inr rc)
        obtain r c where rc: "rc = (r, c)" by (cases rc)
        from Inr rc have cp: "copyPixels (subarray data (pointer + 1) (pointer + 1 + psize)) psize
               ((toInt32 (elemAt data pointer) AND 0x7F) + 1) 0 result current = Inr (r, c)"
          by simp
        from "1.prems" have "j < pointer + 1 + psize" by simp
        from "1.IH"(1) [OF True refl refl refl refl run refl refl cp refl this]
        show ?thesis
          by (simp only: L rleLoop_run [OF True run] cp sum.case prod.case)
      qed
    next
      case raw: False
      from raw e have raw': "drop_bit 7 (toInt32 (elemAt (data[j := v]) pointer) AND 0x80) \<noteq> 1"
        by simp
      obtain r c p where
        cb: "copyBytes data (((toInt32 (elemAt data pointer) AND 0x7F) + 1) * psize) 0
               result current (pointer + 1) = (r, c, p)"
        by (rule prod_cases3)
      from "1.prems" have j: "j < pointer + 1" by simp
      from copyBytes_pointer [OF cb] j have "j < p" by simp
      from "1.IH"(2) [OF True refl refl refl refl raw refl cb [symmetric] refl this]
      show ?thesis
        by (simp only: rleLoop_raw [OF True raw] rleLoop_raw [OF True raw'] e
              copyBytes_update [OF j] cb prod.case)
    qed
  qed
qed

lemma readImageData_update:
  "j < p \<Longrightarrow> readImageData (data[j := v]) info p = readImageData data info p"
  by (simp add: readImageData_def Let_def subarray_update rleLoop_update)

lemma readColorMap_update:
  "j < p \<Longrightarrow> readColorMap (data[j := v]) info p = readColorMap data info p"
  by (simp add: readColorMap_def Let_def subarray_update)

lemma createTgaInfo_colorMapStart:
  "createTgaInfo (header\<lparr>colorMapStart := x\<rparr>) = (createTgaInfo header)\<lparr>colorMapStart := x\<rparr>"
  by (simp add: createTgaInfo_def)

lemma readColorMap_colorMapStart:
  "readColorMap data (info\<lparr>colorMapStart := x\<rparr>) p = readColorMap data info p"
  by (simp add: readColorMap_def)

lemma readImageData_colorMapStart:
  "readImageData data (info\<lparr>colorMapStart := x\<rparr>) p = readImageData data info p"
  by (simp add: readImageData_def Let_def)

lemma getColorMapPixel_colorMapStart:
  "getColorMapPixel (info\<lparr>colorMapStart := x\<rparr>) colorMap index
     = getColorMapPixel info colorMap index"
  by (simp add: getColorMapPixel_def Let_def split: option.split)

lemma getPixel_colorMapStart:
  "getPixel (info\<lparr>colorMapStart := x\<rparr>) raw colorMap index = getPixel info raw colorMap index"
  by (simp add: getPixel_def getColorMapPixel_colorMapStart Let_def)

lemma parseImageDataLoop_colorMapStart:
  "parseImageDataLoop (info\<lparr>colorMapStart := x\<rparr>) raw cm i d
     = parseImageDataLoop info raw cm i d"
proof (induction info raw cm i d rule: parseImageDataLoop.induct)
  case (1 info raw cm i d)
  note unfold = parseImageDataLoop.simps [of "info\<lparr>colorMapStart := x\<rparr>" raw cm i d]
    parseImageDataLoop.simps [of info raw cm i d]
  show ?case
  proof (cases "i < pixelCount info")
    case True
    show ?thesis
    proof (cases "getPixel info raw cm i")
      case (Inl e)
      with True show ?thesis
        by (simp add: unfold getPixel_colorMapStart)
    next
      case (Inr pixel)
      from "1.IH" [OF True Inr refl refl refl refl refl] True Inr show ?thesis
        by (simp add: unfold getPixel_colorMapStart Let_def)
    qed
  next
    case False
    then show ?thesis by (simp add: unfold)
  qed
qed

lemma parseImageData_colorMapStart:
  "parseImageData (info\<lparr>colorMapStart := x\<rparr>) raw cm = parseImageData info raw cm"
  by (simp add: parseImageData_def parseImageDataLoop_colorMapStart)

lemma headerOf_update_3_4:
  "5 \<le> length data \<Longrightarrow>
   headerOf (data[3 := a, 4 := b]) = (headerOf data)\<lparr>colorMapStart := unat a + 256 * unat b\<rparr>"
  by (simp add: headerOf_def rawHeader_def)

lemma parseTgaData_update_3_4:
  "parseTgaData (data[3 := a, 4 := b]) = parseTgaData data"
proof (cases "length data < 18")
  case True
  then have short': "length (data[3 := a, 4 := b]) < 18" by simp
  from readHeader_short [OF True] readHeader_short [OF short'] show ?thesis
    by (auto simp: parseTgaData_def andThen_Inl)
next
  case False
  then have len: "18 \<le> length data" and len': "18 \<le> length (data[3 := a, 4 := b])"
    and len5: "5 \<le> length data"
    by simp_all
  let ?info = "createTgaInfo (headerOf data)"
  let ?p2 = "18 + idLength (headerOf data)"
  have cm: "readColorMap (data[3 := a, 4 := b]) ?info ?p2 = readColorMap data ?info ?p2"
    by (simp add: readColorMap_update)
  obtain c p3 where Pair: "readColorMap data ?info ?p2 = (c, p3)"
    by (cases "readColorMap data ?info ?p2")
  then have "?p2 \<le> p3"
    by (auto simp: readColorMap_def Let_def split: if_splits)
  then have im: "readImageData (data[3 := a, 4 := b]) ?info p3 = readImageData data ?info p3"
    by (simp add: readImageData_update)
  have "parseTgaData (data[3 := a, 4 := b]) =
      andThen (readImageData data ?info p3) (\<lambda>(rawImageData, pointer4).
        andThen (parseImageData ?info rawImageData c) (\<lambda>displayData.
          Inr \<lparr>imageData = displayData, width = width ?info, height = height ?info\<rparr>))"
    by (simp add: parseTgaData_def readHeader_ok [OF len'] andThen_Inr Let_def
          headerOf_update_3_4 [OF len5] createTgaInfo_colorMapStart readColorMap_colorMapStart
          readImageData_colorMapStart parseImageData_colorMapStart cm Pair im)
  also have "\<dots> = parseTgaData data"
    by (simp add: parseTgaData_def readHeader_ok [OF len] andThen_Inr Pair Let_def)
  finally show ?thesis .
qed

subsection \<open>The packet loop on a well-formed stream\<close>

lemma typedArraySet_fits:
  "length source + offset \<le> length target \<Longrightarrow>
   typedArraySet target source offset
     = Inr (take offset target @ source @ drop (offset + length source) target)"
  by (simp add: typedArraySet_def)

lemma drop_spliced:
  assumes "current \<le> length result" and "current + length mid \<le> a"
  shows "drop a (take current result @ mid @ drop (current + length mid) result) = drop a result"
proof -
  from assms obtain b where a: "a = current + length mid + b"
    by (metis le_Suc_ex)
  from assms(1) have "drop a (take current result @ mid @ drop (current + length mid) result)
                        = drop b (drop (current + length mid) result)"
    by (simp add: a)
  also have "\<dots> = drop a result"
    by (simp add: a ac_simps)
  finally show ?thesis .
qed

lemma copyPixels_closed:
  "current + (n - i) * length pixel \<le> length result \<Longrightarrow>
   copyPixels pixel (length pixel) n i result current =
     Inr (take current result @ concat (replicate (n - i) pixel)
            @ drop (current + (n - i) * length pixel) result,
          current + (n - i) * length pixel)"
proof (induction pixel "length pixel" n i result current rule: copyPixels.induct)
  case (1 pixel n i result current)
  show ?case
  proof (cases "i < n")
    case False
    then show ?thesis by (subst copyPixels.simps) simp
  next
    case True
    then obtain k where k: "n - i = Suc k" "n - (i + 1) = k"
      by (cases "n - i") auto
    let ?ps = "length pixel"
    let ?r = "take current result @ pixel @ drop (current + ?ps) result"
    from "1.prems" k have fits: "?ps + current \<le> length result" and cur: "current \<le> length result"
      by simp_all
    have set: "typedArraySet result pixel current = Inr ?r"
      using fits by (rule typedArraySet_fits)
    from "1.prems" k cur have len: "current + ?ps + (n - (i + 1)) * ?ps \<le> length ?r"
      by simp
    have t: "take (current + ?ps) ?r = take current result @ pixel"
      using cur by simp
    have d: "drop (current + ?ps + k * ?ps) ?r = drop (current + ?ps + k * ?ps) result"
      using cur by (rule drop_spliced) simp
    have "copyPixels pixel ?ps n i result current = copyPixels pixel ?ps n (i + 1) ?r (current + ?ps)"
      using True by (subst copyPixels.simps) (simp add: set)
    also have "\<dots> = Inr (take (current + ?ps) ?r @ concat (replicate k pixel)
                           @ drop (current + ?ps + k * ?ps) ?r, current + ?ps + k * ?ps)"
      using "1.hyps" [OF True set len] k by simp
    finally show ?thesis
      by (simp only: t d k) (simp add: add.assoc)
  qed
qed

lemma toUint8_elemAt: "p < length data \<Longrightarrow> toUint8 (elemAt data p) = data ! p"
  by (simp add: toUint8_def elemAt_def)

lemma copyBytes_closed:
  "pointer + (n - i) \<le> length data \<Longrightarrow> current + (n - i) \<le> length result \<Longrightarrow>
   copyBytes data n i result current pointer =
     (take current result @ take (n - i) (drop pointer data) @ drop (current + (n - i)) result,
      current + (n - i), pointer + (n - i))"
proof (induction data n i result current pointer rule: copyBytes.induct)
  case (1 data n i result current pointer)
  show ?case
  proof (cases "i < n")
    case False
    then show ?thesis by (subst copyBytes.simps) simp
  next
    case True
    then obtain k where k: "n - i = Suc k" "n - (i + 1) = k"
      by (cases "n - i") auto
    let ?r = "result[current := data ! pointer]"
    from "1.prems" k have p: "pointer < length data" and c: "current < length result"
      by simp_all
    from "1.prems" k have a: "pointer + 1 + (n - (i + 1)) \<le> length data"
      and b: "current + 1 + (n - (i + 1)) \<le> length ?r" by simp_all
    have s: "setElem result current (toUint8 (elemAt data pointer)) = ?r"
      using p c by (simp add: setElem_def toUint8_elemAt)
    have t: "take (current + 1) ?r = take current result @ [data ! pointer]"
      using c by (simp add: take_Suc_conv_app_nth)
    have d: "drop (current + 1 + k) ?r = drop (current + 1 + k) result"
      by (simp add: drop_update_cancel)
    have e: "take (Suc k) (drop pointer data) = data ! pointer # take k (drop (pointer + 1) data)"
      using p by (simp add: Cons_nth_drop_Suc [symmetric])
    have "copyBytes data n i result current pointer
            = copyBytes data n (i + 1) ?r (current + 1) (pointer + 1)"
      using True by (subst copyBytes.simps) (simp add: s)
    also have "\<dots> = (take (current + 1) ?r @ take k (drop (pointer + 1) data)
                          @ drop (current + 1 + k) ?r, current + 1 + k, pointer + 1 + k)"
      using "1.IH" [OF True, unfolded s, OF a b] unfolding k .
    finally show ?thesis
      by (simp only: t d e k) simp
  qed
qed


lemma type_bit: "drop_bit 7 ((w::nat) AND 0x80) = (w div 128) mod 2"
  using and_mask_shift [of 7 w 1] by (simp add: mask_eq_exp_minus_1 push_bit_eq_mult)

lemma count_bits: "(w::nat) AND 0x7F = w mod 128"
  using and_mask_shift [of 0 w 7] by (simp add: mask_eq_exp_minus_1 push_bit_eq_mult)

lemma unat_of_nat_u8: "k < 256 \<Longrightarrow> unat (of_nat k :: u8) = k"
  by (simp add: unat_of_nat)

lemma run_header:
  assumes "1 \<le> n" "n \<le> 128"
  shows "drop_bit 7 (toInt32 (Some (unat (of_nat (128 + (n - 1)) :: u8))) AND 0x80) = 1"
    and "(toInt32 (Some (unat (of_nat (128 + (n - 1)) :: u8))) AND 0x7F) + 1 = n"
proof -
  from assms have "128 + (n - 1) < 256" by simp
  then have u: "unat (of_nat (128 + (n - 1)) :: u8) = 128 + (n - 1)"
    by (rule unat_of_nat_u8)
  from assms obtain m where m: "n = Suc m" "m < 128"
    by (cases n) auto
  from m have a: "((128 + (n - 1)) div 128) mod 2 = 1" by simp
  from m have b: "(128 + (n - 1)) mod 128 + 1 = n" by simp
  show "drop_bit 7 (toInt32 (Some (unat (of_nat (128 + (n - 1)) :: u8))) AND 0x80) = 1"
    by (simp only: toInt32_def option.case u type_bit a)
  show "(toInt32 (Some (unat (of_nat (128 + (n - 1)) :: u8))) AND 0x7F) + 1 = n"
    by (simp only: toInt32_def option.case u count_bits b)
qed

lemma raw_header:
  assumes "1 \<le> n" "n \<le> 128"
  shows "drop_bit 7 (toInt32 (Some (unat (of_nat (n - 1) :: u8))) AND 0x80) \<noteq> 1"
    and "(toInt32 (Some (unat (of_nat (n - 1) :: u8))) AND 0x7F) + 1 = n"
proof -
  from assms have "n - 1 < 256" by simp
  then have u: "unat (of_nat (n - 1) :: u8) = n - 1"
    by (rule unat_of_nat_u8)
  from assms obtain m where m: "n = Suc m" "m < 128"
    by (cases n) auto
  from m have a: "((n - 1) div 128) mod 2 \<noteq> 1" by simp
  from m have b: "(n - 1) mod 128 + 1 = n" by simp
  show "drop_bit 7 (toInt32 (Some (unat (of_nat (n - 1) :: u8))) AND 0x80) \<noteq> 1"
    using a by (simp only: toInt32_def option.case u type_bit not_False_eq_True)
  show "(toInt32 (Some (unat (of_nat (n - 1) :: u8))) AND 0x7F) + 1 = n"
    by (simp only: toInt32_def option.case u count_bits b)
qed

lemma elemAt_header: "elemAt (pre @ (h # payload) @ rest) (length pre) = Some (unat h)"
  by (simp add: elemAt_def)

lemma subarray_payload:
  "subarray (pre @ (h # payload) @ rest) (length pre + 1) (length pre + 1 + length payload)
     = payload"
  by (simp add: subarray_eq)

lemma rleLoop_RunPacket:
  assumes n: "1 \<le> n" "n \<le> 128"
    and cur: "current < npix * length pixel"
    and fits: "current + n * length pixel \<le> length result"
  shows "rleLoop (pre @ (of_nat (128 + (n - 1)) # pixel) @ rest) (length pixel) npix
           result current (length pre)
       = rleLoop (pre @ (of_nat (128 + (n - 1)) # pixel) @ rest) (length pixel) npix
           (take current result @ concat (replicate n pixel)
              @ drop (current + n * length pixel) result)
           (current + n * length pixel) (length pre + 1 + length pixel)"
proof -
  let ?data = "pre @ (of_nat (128 + (n - 1)) # pixel) @ rest"
  have h: "elemAt ?data (length pre) = Some (unat (of_nat (128 + (n - 1)) :: u8))"
    by (rule elemAt_header)
  have run: "drop_bit 7 (toInt32 (elemAt ?data (length pre)) AND 0x80) = 1"
    and cnt: "(toInt32 (elemAt ?data (length pre)) AND 0x7F) + 1 = n"
    unfolding h using n by (rule run_header)+
  have px: "subarray ?data (length pre + 1) (length pre + 1 + length pixel) = pixel"
    by (rule subarray_payload)
  from fits have cp: "copyPixels pixel (length pixel) n 0 result current =
     Inr (take current result @ concat (replicate n pixel)
            @ drop (current + n * length pixel) result, current + n * length pixel)"
    using copyPixels_closed [of current n 0 pixel result] by simp
  show ?thesis
    by (subst rleLoop_run [OF cur run]) (simp only: cnt px cp sum.case prod.case)
qed

lemma rleLoop_RawPacket:
  assumes n: "1 \<le> n" "n \<le> 128"
    and cur: "current < npix * psize"
    and fits: "current + n * psize \<le> length result"
    and len: "length bytes = n * psize"
  shows "rleLoop (pre @ (of_nat (n - 1) # bytes) @ rest) psize npix result current (length pre)
       = rleLoop (pre @ (of_nat (n - 1) # bytes) @ rest) psize npix
           (take current result @ bytes @ drop (current + n * psize) result)
           (current + n * psize) (length pre + 1 + n * psize)"
proof -
  let ?data = "pre @ (of_nat (n - 1) # bytes) @ rest"
  have h: "elemAt ?data (length pre) = Some (unat (of_nat (n - 1) :: u8))"
    by (rule elemAt_header)
  have raw: "drop_bit 7 (toInt32 (elemAt ?data (length pre)) AND 0x80) \<noteq> 1"
    and cnt: "(toInt32 (elemAt ?data (length pre)) AND 0x7F) + 1 = n"
    unfolding h using n by (rule raw_header)+
  have src: "take (n * psize) (drop (length pre + 1) ?data) = bytes"
    using len by simp
  from len have "length pre + 1 + (n * psize - 0) \<le> length ?data" by simp
  moreover from fits have "current + (n * psize - 0) \<le> length result" by simp
  ultimately have cb: "copyBytes ?data (n * psize) 0 result current (length pre + 1) =
     (take current result @ take (n * psize) (drop (length pre + 1) ?data)
        @ drop (current + n * psize) result, current + n * psize, length pre + 1 + n * psize)"
    using copyBytes_closed [of "length pre + 1" "n * psize" 0 ?data current result] by simp
  show ?thesis
    by (subst rleLoop_raw [OF cur raw]) (simp only: cnt cb src prod.case)
qed


lemma packetOutput_length:
  "wellFormed psize p \<Longrightarrow> \<exists>n. 1 \<le> n \<and> length (packetOutput p) = n * psize"
  by (cases p) (auto simp: length_concat sum_list_replicate)

lemma rleLoop_packet:
  assumes wf: "wellFormed psize p"
    and cur: "current < npix * psize"
    and fits: "current + length (packetOutput p) \<le> length result"
  shows "rleLoop (pre @ packetBytes p @ rest) psize npix result current (length pre)
       = rleLoop (pre @ packetBytes p @ rest) psize npix
           (take current result @ packetOutput p
              @ drop (current + length (packetOutput p)) result)
           (current + length (packetOutput p)) (length pre + length (packetBytes p))"
proof (cases p)
  case (RunPacket n pixel)
  with wf have n: "1 \<le> n" "n \<le> 128" and ps: "psize = length pixel" by simp_all
  have out: "length (concat (replicate n pixel)) = n * length pixel"
    by (simp add: length_concat sum_list_replicate)
  from fits have "current + n * length pixel \<le> length result"
    by (simp add: RunPacket out)
  from rleLoop_RunPacket [OF n cur [unfolded ps] this, of pre rest]
  show ?thesis by (simp add: RunPacket ps out)
next
  case (RawPacket n bytes)
  with wf have n: "1 \<le> n" "n \<le> 128" and len: "length bytes = n * psize" by simp_all
  from len have out: "length (packetOutput p) = n * psize" by (simp add: RawPacket)
  from rleLoop_RawPacket [OF n cur fits [unfolded out] len, of pre rest]
  show ?thesis by (simp add: RawPacket len)
qed

lemma rleLoop_packets:
  assumes ps: "0 < psize"
  shows "\<forall>p \<in> set packets. wellFormed psize p \<Longrightarrow>
     length out + length (concat (map packetOutput packets)) = npix * psize \<Longrightarrow>
     length tail = length (concat (map packetOutput packets)) \<Longrightarrow>
     rleLoop (pre @ concat (map packetBytes packets) @ post) psize npix
       (out @ tail) (length out) (length pre)
     = Inr (out @ concat (map packetOutput packets),
            length pre + length (concat (map packetBytes packets)))"
proof (induction packets arbitrary: pre out tail)
  case Nil
  then show ?case by (simp add: rleLoop_done)
next
  case (Cons p packets)
  let ?o = "packetOutput p"
  let ?rest = "concat (map packetOutput packets)"
  from Cons.prems(1) have wf: "wellFormed psize p"
    and wfs: "\<forall>q \<in> set packets. wellFormed psize q" by simp_all
  from packetOutput_length [OF wf] ps have pos: "0 < length ?o" by auto
  from Cons.prems(2) have "length out + length ?o \<le> npix * psize" by simp
  with pos have cur: "length out < npix * psize" by linarith
  from Cons.prems(3) have fits: "length out + length ?o \<le> length (out @ tail)" by simp
  have step: "rleLoop (pre @ packetBytes p @ concat (map packetBytes packets) @ post) psize npix
                (out @ tail) (length out) (length pre)
            = rleLoop (pre @ packetBytes p @ concat (map packetBytes packets) @ post) psize npix
                ((out @ ?o) @ drop (length ?o) tail) (length (out @ ?o))
                (length (pre @ packetBytes p))"
    using rleLoop_packet [OF wf cur fits, of pre "concat (map packetBytes packets) @ post"]
    by simp
  from Cons.prems(2) have a: "length (out @ ?o) + length ?rest = npix * psize" by simp
  from Cons.prems(3) have b: "length (drop (length ?o) tail) = length ?rest" by simp
  from Cons.IH [OF wfs a b, of "pre @ packetBytes p"] step
  show ?case by simp
qed

lemma info_rle8_fields:
  "isRle info_rle8_2x1" "pixelSize info_rle8_2x1 = 1" "pixelCount info_rle8_2x1 = 2"
  "isRle info_rle8_3x1" "pixelSize info_rle8_3x1 = 1" "pixelCount info_rle8_3x1 = 3"
  by (simp_all add: info_rle8_2x1_def info_rle8_3x1_def createTgaInfo_def headerOf_def
        rawHeader_def sampleHeader_def drop_bit_eq_div)

subsection \<open>When the packet loop fails\<close>

lemma reachesOvershoot_done:
  "\<not> current < npix * psize \<Longrightarrow> \<not> reachesOvershoot data psize npix current pointer"
  by (subst reachesOvershoot.simps) simp

lemma reachesOvershoot_run:
  assumes "current < npix * psize"
    and "drop_bit 7 (toInt32 (elemAt data pointer) AND 0x80) = 1"
  shows "reachesOvershoot data psize npix current pointer =
    (npix * psize < current + ((toInt32 (elemAt data pointer) AND 0x7F) + 1 - 1) * psize
                      + length (subarray data (pointer + 1) (pointer + 1 + psize))
     \<or> reachesOvershoot data psize npix
          (current + ((toInt32 (elemAt data pointer) AND 0x7F) + 1) * psize)
          (pointer + 1 + psize))"
  using assms by (subst reachesOvershoot.simps) (simp add: Let_def)

lemma reachesOvershoot_raw:
  assumes "current < npix * psize"
    and "drop_bit 7 (toInt32 (elemAt data pointer) AND 0x80) \<noteq> 1"
  shows "reachesOvershoot data psize npix current pointer =
    reachesOvershoot data psize npix
      (current + ((toInt32 (elemAt data pointer) AND 0x7F) + 1) * psize)
      (pointer + 1 + ((toInt32 (elemAt data pointer) AND 0x7F) + 1) * psize)"
  by (subst reachesOvershoot.simps) (simp only: Let_def assms if_True if_False simp_thms)

lemma copyPixels_fails_iff:
  "(\<exists>e. copyPixels pixel psize n i result current = Inl e) \<longleftrightarrow>
   (i < n \<and> length result < length pixel + current + (n - 1 - i) * psize)"
proof (induction pixel psize n i result current rule: copyPixels.induct)
  case (1 pixel psize n i result current)
  show ?case
  proof (cases "i < n")
    case False
    then show ?thesis by (subst copyPixels.simps) simp
  next
    case True
    show ?thesis
    proof (cases "length result < length pixel + current")
      case over: True
      then have "typedArraySet result pixel current = Inl RangeError"
        by (simp add: typedArraySet_def)
      with True have "copyPixels pixel psize n i result current = Inl RangeError"
        by (subst copyPixels.simps) simp
      moreover from over
      have "length result < length pixel + current + (n - 1 - i) * psize" by simp
      ultimately show ?thesis using True by simp
    next
      case fits: False
      let ?r = "take current result @ pixel @ drop (current + length pixel) result"
      from fits have set: "typedArraySet result pixel current = Inr ?r"
        by (simp add: typedArraySet_def)
      from fits have len: "length ?r = length result" by simp
      from True set have step: "copyPixels pixel psize n i result current
                          = copyPixels pixel psize n (i + 1) ?r (current + psize)"
        by (subst copyPixels.simps) simp
      show ?thesis
      proof (cases "i + 1 < n")
        case more: True
        then have "n - 1 - i = Suc (n - 1 - (i + 1))" by simp
        then have "(n - 1 - i) * psize = psize + (n - 1 - (i + 1)) * psize"
          by (simp only: mult_Suc)
        with "1.IH" [OF True set] more True show ?thesis
          by (simp only: step len) (simp add: add.assoc)
      next
        case last: False
        with True have "n - 1 - i = 0" by simp
        with "1.IH" [OF True set] last True fits show ?thesis
          by (simp only: step len) simp
      qed
    qed
  qed
qed

lemma copyBytes_pointer_eq:
  "copyBytes data n i result current pointer = (result', current', pointer') \<Longrightarrow>
   pointer' = pointer + (n - i)"
proof (induction data n i result current pointer rule: copyBytes.induct)
  case (1 data n i result current pointer)
  show ?case
  proof (cases "i < n")
    case True
    with "1.prems" have
      "copyBytes data n (i + 1) (setElem result current (toUint8 (elemAt data pointer)))
         (current + 1) (pointer + 1) = (result', current', pointer')"
      by (subst (asm) copyBytes.simps) simp
    from "1.IH" [OF True this] True show ?thesis by simp
  next
    case False
    with "1.prems" show ?thesis by (subst (asm) copyBytes.simps) simp
  qed
qed

lemma rleLoop_fails_iff:
  "length result = npix * psize \<Longrightarrow>
   (\<exists>e. rleLoop data psize npix result current pointer = Inl e) \<longleftrightarrow>
   reachesOvershoot data psize npix current pointer"
proof (induction data psize npix result current pointer rule: rleLoop.induct)
  case (1 data psize npix result current pointer)
  let ?n = "(toInt32 (elemAt data pointer) AND 0x7F) + 1"
  show ?case
  proof (cases "current < npix * psize")
    case False
    then show ?thesis by (simp add: rleLoop_done reachesOvershoot_done)
  next
    case True
    show ?thesis
    proof (cases "drop_bit 7 (toInt32 (elemAt data pointer) AND 0x80) = 1")
      case run: True
      let ?pixel = "subarray data (pointer + 1) (pointer + 1 + psize)"
      show ?thesis
      proof (cases "copyPixels ?pixel psize ?n 0 result current")
        case (Inl e)
        then have "\<exists>e. copyPixels ?pixel psize ?n 0 result current = Inl e" by blast
        then have "npix * psize < current + (?n - 1) * psize + length ?pixel"
          by (simp add: copyPixels_fails_iff "1.prems" add.commute add.left_commute)
        moreover from Inl have "\<exists>e. rleLoop data psize npix result current pointer = Inl e"
          by (simp add: rleLoop_run [OF True run])
        ultimately show ?thesis
          by (simp only: reachesOvershoot_run [OF True run] simp_thms)
      next
        case (Inr rc)
        obtain r c where rc: "rc = (r, c)" by (cases rc)
        from Inr rc have cp: "copyPixels ?pixel psize ?n 0 result current = Inr (r, c)" by simp
        then have "\<not> (\<exists>e. copyPixels ?pixel psize ?n 0 result current = Inl e)" by simp
        then have no: "\<not> npix * psize < current + (?n - 1) * psize + length ?pixel"
          by (simp add: copyPixels_fails_iff "1.prems" add.commute add.left_commute)
        from copyPixels_current [OF cp] have c: "c = current + ?n * psize" by simp
        from copyPixels_length [OF cp] "1.prems" have len: "length r = npix * psize" by simp
        from "1.IH"(1) [OF True refl refl refl refl run refl refl cp refl len]
        have "(\<exists>e. rleLoop data psize npix r c (pointer + 1 + psize) = Inl e)
                = reachesOvershoot data psize npix c (pointer + 1 + psize)" .
        moreover have "rleLoop data psize npix result current pointer
                         = rleLoop data psize npix r c (pointer + 1 + psize)"
          by (simp only: rleLoop_run [OF True run] cp sum.case prod.case)
        ultimately show ?thesis
          using no by (simp only: reachesOvershoot_run [OF True run] c simp_thms)
      qed
    next
      case raw: False
      obtain r c p where cb: "copyBytes data (?n * psize) 0 result current (pointer + 1) = (r, c, p)"
        by (rule prod_cases3)
      from copyBytes_current [OF cb] have c: "c = current + ?n * psize" by simp
      from copyBytes_pointer_eq [OF cb] have p: "p = pointer + 1 + ?n * psize" by simp
      from copyBytes_length [OF cb] "1.prems" have len: "length r = npix * psize" by simp
      from "1.IH"(2) [OF True refl refl refl refl raw refl cb [symmetric] refl len]
      have "(\<exists>e. rleLoop data psize npix r c p = Inl e)
              = reachesOvershoot data psize npix c p" .
      moreover have "rleLoop data psize npix result current pointer
                       = rleLoop data psize npix r c p"
        by (simp only: rleLoop_raw [OF True raw] cb prod.case)
      ultimately show ?thesis
        by (simp only: reachesOvershoot_raw [OF True raw] c p)
    qed
  qed
qed

lemma reachesOvershoot_exhausted:
  "length data \<le> pointer \<Longrightarrow> \<not> reachesOvershoot data psize npix current pointer"
proof (induction data psize npix current pointer rule: reachesOvershoot.induct)
  case (1 data psize npix current pointer)
  show ?case
  proof (cases "current < npix * psize")
    case False
    then show ?thesis by (rule reachesOvershoot_done)
  next
    case True
    from "1.prems" have e: "elemAt data pointer = None" by (rule elemAt_exhausted)
    have raw: "drop_bit 7 (toInt32 (elemAt data pointer) AND 0x80) \<noteq> 1"
      by (simp add: e toInt32_def)
    from "1.prems"
    have "length data \<le> pointer + 1 + ((toInt32 (elemAt data pointer) AND 0x7F) + 1) * psize"
      by simp
    from "1.IH"(2) [OF True refl refl raw this] show ?thesis
      by (simp only: reachesOvershoot_raw [OF True raw] simp_thms)
  qed
qed

lemma elemAt_append: "p < length data \<Longrightarrow> elemAt (data @ extra) p = elemAt data p"
  by (simp add: elemAt_def nth_append)

lemma length_subarray_append:
  "length (subarray data s e) \<le> length (subarray (data @ extra) s e)"
  by (simp add: subarray_eq)

lemma reachesOvershoot_append:
  "reachesOvershoot data psize npix current pointer \<Longrightarrow>
   reachesOvershoot (data @ extra) psize npix current pointer"
proof (induction data psize npix current pointer rule: reachesOvershoot.induct)
  case (1 data psize npix current pointer)
  from "1.prems" reachesOvershoot_done have cur: "current < npix * psize" by blast
  from "1.prems" reachesOvershoot_exhausted have p: "pointer < length data"
    by (metis not_le)
  then have e: "elemAt (data @ extra) pointer = elemAt data pointer" by (rule elemAt_append)
  let ?n = "(toInt32 (elemAt data pointer) AND 0x7F) + 1"
  show ?case
  proof (cases "drop_bit 7 (toInt32 (elemAt data pointer) AND 0x80) = 1")
    case run: True
    from run e have run': "drop_bit 7 (toInt32 (elemAt (data @ extra) pointer) AND 0x80) = 1"
      by simp
    let ?px = "subarray data (pointer + 1) (pointer + 1 + psize)"
    let ?px' = "subarray (data @ extra) (pointer + 1) (pointer + 1 + psize)"
    have le: "length ?px \<le> length ?px'" by (rule length_subarray_append)
    from "1.prems" consider
        (now) "npix * psize < current + (?n - 1) * psize + length ?px"
      | (later) "\<not> npix * psize < current + (?n - 1) * psize + length ?px"
          "reachesOvershoot data psize npix (current + ?n * psize) (pointer + 1 + psize)"
      by (auto simp only: reachesOvershoot_run [OF cur run])
    then show ?thesis
    proof cases
      case now
      with le have "npix * psize < current + (?n - 1) * psize + length ?px'" by linarith
      then show ?thesis by (simp only: reachesOvershoot_run [OF cur run'] e simp_thms)
    next
      case later
      from "1.IH"(1) [OF cur refl refl run later]
      show ?thesis by (simp only: reachesOvershoot_run [OF cur run'] e simp_thms)
    qed
  next
    case raw: False
    from raw e have raw': "drop_bit 7 (toInt32 (elemAt (data @ extra) pointer) AND 0x80) \<noteq> 1"
      by simp
    from "1.prems" have "reachesOvershoot data psize npix (current + ?n * psize)
                           (pointer + 1 + ?n * psize)"
      by (simp only: reachesOvershoot_raw [OF cur raw])
    from "1.IH"(2) [OF cur refl refl raw this]
    show ?thesis by (simp only: reachesOvershoot_raw [OF cur raw'] e)
  qed
qed

lemma readImageData_fails_iff:
  "isRle info \<Longrightarrow>
   (\<exists>e. readImageData data info p = Inl e) \<longleftrightarrow>
   reachesOvershoot data (pixelSize info) (pixelCount info) 0 p"
  using rleLoop_fails_iff [of "replicate (pixelCount info * pixelSize info) 0"
          "pixelCount info" "pixelSize info" data 0 p]
  by (simp add: readImageData_def)

subsection \<open>Entries of the colour map\<close>

lemma three_bytes:
  assumes "s + 3 \<le> length xs"
  shows "subarray xs s (s + 3) = [xs ! s, xs ! (s + 1), xs ! (s + 2)]"
proof -
  from assms have "take 3 (drop s xs) = [xs ! s, xs ! (s + 1), xs ! (s + 2)]"
    by (simp add: numeral_3_eq_3 take_Suc_conv_app_nth nth_append)
  then show ?thesis by (simp add: subarray_eq)
qed

lemma four_bytes:
  assumes "s + 4 \<le> length xs"
  shows "subarray xs s (s + 4) = [xs ! s, xs ! (s + 1), xs ! (s + 2), xs ! (s + 3)]"
proof -
  from assms have t3: "take 3 (drop s xs) = [xs ! s, xs ! (s + 1), xs ! (s + 2)]"
    by (simp add: numeral_3_eq_3 take_Suc_conv_app_nth nth_append)
  from assms have "take (Suc 3) (drop s xs) = take 3 (drop s xs) @ [drop s xs ! 3]"
    by (intro take_Suc_conv_app_nth) simp
  with assms t3 have "take 4 (drop s xs) = [xs ! s, xs ! (s + 1), xs ! (s + 2), xs ! (s + 3)]"
    by simp
  then show ?thesis by (simp add: subarray_eq)
qed

lemma getColorFrom3ByteEntry_bytes:
  "getColorFrom3ByteEntry [b0, b1, b2] = [Some (unat b2), Some (unat b1), Some (unat b0), Some 255]"
  by (simp add: getColorFrom3ByteEntry_def elemAt_def)

lemma getColorFrom4ByteEntry_bytes:
  "getColorFrom4ByteEntry [b0, b1, b2, b3] a =
     [Some (unat b2), Some (unat b1), Some (unat b0), if a = 8 then Some (unat b3) else Some 255]"
  by (simp add: getColorFrom4ByteEntry_def elemAt_def Let_def)

lemma getColorMapPixel_2:
  assumes "colorMapEntrySize info = 2" and "i * 2 + 2 \<le> length cm"
  shows "getColorMapPixel info (Some cm) (Some i) =
     (let w = unat (cm ! (i * 2)) + 256 * unat (cm ! (i * 2 + 1))
      in Inr [Some (expand5 ((w div 1024) mod 32)), Some (expand5 ((w div 32) mod 32)),
              Some (expand5 (w mod 32)), Some 255])"
proof -
  have "getColorMapPixel info (Some cm) (Some i)
          = Inr (getColorFrom2ByteEntry (subarray cm (i * 2) (i * 2 + 2)))"
    using assms(1) by (simp add: getColorMapPixel_def Let_def)
  also have "subarray cm (i * 2) (i * 2 + 2) = [cm ! (i * 2), cm ! (i * 2 + 1)]"
    using assms(2) by (rule two_bytes)
  finally show ?thesis by (simp add: getColorFrom2ByteEntry_word Let_def)
qed

lemma getColorMapPixel_3:
  assumes "colorMapEntrySize info = 3" and "i * 3 + 3 \<le> length cm"
  shows "getColorMapPixel info (Some cm) (Some i) =
     Inr [Some (unat (cm ! (i * 3 + 2))), Some (unat (cm ! (i * 3 + 1))),
          Some (unat (cm ! (i * 3))), Some 255]"
proof -
  have "getColorMapPixel info (Some cm) (Some i)
          = Inr (getColorFrom3ByteEntry (subarray cm (i * 3) (i * 3 + 3)))"
    using assms(1) by (simp add: getColorMapPixel_def Let_def)
  also have "subarray cm (i * 3) (i * 3 + 3) = [cm ! (i * 3), cm ! (i * 3 + 1), cm ! (i * 3 + 2)]"
    using assms(2) by (rule three_bytes)
  finally show ?thesis by (simp add: getColorFrom3ByteEntry_bytes)
qed

lemma getColorMapPixel_4:
  assumes "colorMapEntrySize info = 4" and "i * 4 + 4 \<le> length cm"
  shows "getColorMapPixel info (Some cm) (Some i) =
     Inr [Some (unat (cm ! (i * 4 + 2))), Some (unat (cm ! (i * 4 + 1))),
          Some (unat (cm ! (i * 4))),
          if alphaDepth info = 8 then Some (unat (cm ! (i * 4 + 3))) else Some 255]"
proof -
  have "getColorMapPixel info (Some cm) (Some i)
          = Inr (getColorFrom4ByteEntry (subarray cm (i * 4) (i * 4 + 4)) (alphaDepth info))"
    using assms(1) by (simp add: getColorMapPixel_def Let_def)
  also have "subarray cm (i * 4) (i * 4 + 4)
               = [cm ! (i * 4), cm ! (i * 4 + 1), cm ! (i * 4 + 2), cm ! (i * 4 + 3)]"
    using assms(2) by (rule four_bytes)
  finally show ?thesis by (simp add: getColorFrom4ByteEntry_bytes)
qed

lemma info_indexed_fields:
  "colorMapEntrySize info_indexed16 = 2"
  "colorMapEntrySize info_indexed24 = 3"
  "colorMapEntrySize info_indexed32 = 4" "alphaDepth info_indexed32 = 8"
  by (simp_all add: info_indexed16_def info_indexed24_def info_indexed32_def createTgaInfo_def
        headerOf_def rawHeader_def sampleHeader_def drop_bit_eq_div and_mask_shift [of 0 _ 4, simplified])

subsection \<open>The claims\<close>

text \<open>
  Claim C1. The claim wants \<open>isGrey\<close> to hold only for image types whose low two bits
  are both set (3 and 11). \<open>createTgaInfo\<close> tests \<open>imageType & 3\<close> for being non-zero, so
  \<open>isGrey\<close> holds as soon as one of the two bits is set: for the image types 1, 2, 9 and
  10 as well. The sample is an uncompressed true-colour file (image type 2) of 16 bits
  holding the pure red word \<open>0x7C00\<close>: its descriptor has \<open>isGrey\<close> set, \<open>getPixel\<close>
  takes the grey branch, and the pixel decodes to black.
\<close>

theorem isGrey_true_color_sample:
  "isGrey (createTgaInfo header) = (imageType header mod 4 \<noteq> 0) \<and>
   imageType (headerOf tga_rgb16_red) = 2 \<and>
   isGrey (createTgaInfo (headerOf tga_rgb16_red)) \<and>
   parseTgaData tga_rgb16_red = Inr \<lparr>imageData = [0, 0, 0, 255], width = 1, height = 1\<rparr>"
proof -
  have a: "isGrey (createTgaInfo header) = (imageType header mod 4 \<noteq> 0)"
    by (simp add: createTgaInfo_def IMAGE_TYPE_GREY_def and_3_mod)
  have b: "imageType (headerOf tga_rgb16_red) = 2"
    by (simp add: headerOf_def rawHeader_def tga_rgb16_red_def sampleHeader_def)
  have c: "isGrey (createTgaInfo (headerOf tga_rgb16_red))"
    by (simp add: createTgaInfo_def IMAGE_TYPE_GREY_def and_3_mod b)
  have d: "parseTgaData tga_rgb16_red = Inr \<lparr>imageData = [0, 0, 0, 255], width = 1, height = 1\<rparr>"
    by code_simp
  from a b c d show ?thesis by blast
qed

text \<open>
  Claim C2, as stated, fails on each of the three regions. The samples have a complete
  header and are cut short after it: a true-colour file without its pixel bytes, a
  run-length encoded file whose packet lacks bytes of its pixel, a colour-mapped file
  without colour map and pixel bytes. The decoder returns an image for each, with the
  missing bytes read as 0.
\<close>

theorem truncated_regions_counterexample:
  "length tga_rgb24_truncated = 18 \<and>
   parseTgaData tga_rgb24_truncated
     = Inr \<lparr>imageData = [0, 0, 0, 255], width = 1, height = 1\<rparr> \<and>
   parseTgaData tga_rle24_truncated
     = Inr \<lparr>imageData = [0, 0, 1, 255, 0, 0, 1, 255], width = 2, height = 1\<rparr> \<and>
   parseTgaData tga_indexed_truncated
     = Inr \<lparr>imageData = [0, 0, 0, 255], width = 1, height = 1\<rparr>"
proof -
  have a: "length tga_rgb24_truncated = 18"
    by (simp add: tga_rgb24_truncated_def sampleHeader_def)
  have b: "parseTgaData tga_rgb24_truncated
     = Inr \<lparr>imageData = [0, 0, 0, 255], width = 1, height = 1\<rparr>" by code_simp
  have c: "parseTgaData tga_rle24_truncated
     = Inr \<lparr>imageData = [0, 0, 1, 255, 0, 0, 1, 255], width = 2, height = 1\<rparr>" by code_simp
  have d: "parseTgaData tga_indexed_truncated
     = Inr \<lparr>imageData = [0, 0, 0, 255], width = 1, height = 1\<rparr>" by code_simp
  from a b c d show ?thesis by simp
qed

text \<open>
  Claim C2, amended. Only the header is read with a check of the length: the decoder
  fails with the error of \<open>readItem\<close> exactly when the buffer is shorter than 18 bytes.
  \<open>readColorMap\<close> cannot fail and returns the view of the requested length clamped to
  the end of the buffer; \<open>readImageData\<close> on the raw path returns the clamped view of
  \<open>pixelCount * pixelSize\<close> bytes and does not fail. On the run-length path
  \<open>readImageData\<close> fails only with a \<open>RangeError\<close>, and exactly when its walk over the
  packets (\<open>reachesOvershoot\<close>) comes to a run-length packet whose last copy would end
  past the \<open>pixelCount * pixelSize\<close> bytes of the output. Bytes missing from the source
  never make it fail: when it fails on a source it fails on every extension of that
  source, and started at or past the end of the source it returns an output of zeros.
\<close>

theorem truncation_fails_only_in_header:
  "((\<exists>s t. parseTgaData data = Inl (NoEnoughData s t)) \<longleftrightarrow> length data < 18) \<and>
   readColorMap data info p =
     (if colorMapType info = 0 then (None, p)
      else (Some (take (colorMapLength info * (colorMapEntryDepth info div 8)) (drop p data)),
            p + colorMapLength info * (colorMapEntryDepth info div 8))) \<and>
   (\<not> isRle info \<longrightarrow>
      readImageData data info p =
        Inr (take (pixelCount info * pixelSize info) (drop p data),
             p + pixelCount info * pixelSize info)) \<and>
   (isRle info \<longrightarrow> (\<forall>e. readImageData data info p = Inl e \<longrightarrow> e = RangeError)) \<and>
   (isRle info \<longrightarrow> length data \<le> p \<longrightarrow>
      (\<exists>p'. readImageData data info p
             = Inr (replicate (pixelCount info * pixelSize info) 0, p'))) \<and>
   (isRle info \<longrightarrow>
      ((\<exists>e. readImageData data info p = Inl e) \<longleftrightarrow>
       reachesOvershoot data (pixelSize info) (pixelCount info) 0 p)) \<and>
   (isRle info \<longrightarrow> (\<exists>e. readImageData data info p = Inl e) \<longrightarrow>
      (\<exists>e. readImageData (data @ extra) info p = Inl e))"
proof -
  have 1: "(\<exists>s t. parseTgaData data = Inl (NoEnoughData s t)) \<longleftrightarrow> length data < 18"
  proof
    assume "\<exists>s t. parseTgaData data = Inl (NoEnoughData s t)"
    then obtain s t where e: "parseTgaData data = Inl (NoEnoughData s t)" by blast
    show "length data < 18"
    proof (rule ccontr)
      assume "\<not> length data < 18"
      then have "18 \<le> length data" by simp
      from parseTgaData_after_header [OF this] e show False by blast
    qed
  next
    assume "length data < 18"
    from readHeader_short [OF this] show "\<exists>s t. parseTgaData data = Inl (NoEnoughData s t)"
      by (auto simp: parseTgaData_def andThen_Inl)
  qed
  have 2: "readColorMap data info p =
     (if colorMapType info = 0 then (None, p)
      else (Some (take (colorMapLength info * (colorMapEntryDepth info div 8)) (drop p data)),
            p + colorMapLength info * (colorMapEntryDepth info div 8)))"
    by (simp add: readColorMap_def Let_def subarray_eq drop_bit_eq_div)
  have 3: "\<not> isRle info \<longrightarrow>
      readImageData data info p =
        Inr (take (pixelCount info * pixelSize info) (drop p data),
             p + pixelCount info * pixelSize info)"
    by (simp add: readImageData_def Let_def subarray_eq)
  have 4: "isRle info \<longrightarrow> (\<forall>e. readImageData data info p = Inl e \<longrightarrow> e = RangeError)"
    by (auto dest: readImageData_error)
  have 5: "isRle info \<longrightarrow> length data \<le> p \<longrightarrow>
      (\<exists>p'. readImageData data info p
             = Inr (replicate (pixelCount info * pixelSize info) 0, p'))"
    by (simp add: readImageData_exhausted)
  have 6: "isRle info \<longrightarrow>
      ((\<exists>e. readImageData data info p = Inl e) \<longleftrightarrow>
       reachesOvershoot data (pixelSize info) (pixelCount info) 0 p)"
    by (simp add: readImageData_fails_iff)
  have 7: "isRle info \<longrightarrow> (\<exists>e. readImageData data info p = Inl e) \<longrightarrow>
      (\<exists>e. readImageData (data @ extra) info p = Inl e)"
    by (auto simp: readImageData_fails_iff dest: reachesOvershoot_append)
  from 1 2 3 4 5 6 7 show ?thesis by blast
qed

theorem truncation_fails_only_in_header_witness:
  "\<not> length tga_rgb24_truncated < 18 \<and>
   \<not> (\<exists>s t. parseTgaData tga_rgb24_truncated = Inl (NoEnoughData s t)) \<and>
   \<not> isRle (createTgaInfo (headerOf tga_rgb24_truncated)) \<and>
   readImageData tga_rgb24_truncated (createTgaInfo (headerOf tga_rgb24_truncated)) 18
     = Inr ([], 21) \<and>
   isRle info_rle24_2x1 \<and>
   readImageData [0x82, 1, 2, 3] info_rle24_2x1 0 = Inl RangeError \<and>
   reachesOvershoot [0x82, 1, 2, 3] (pixelSize info_rle24_2x1) (pixelCount info_rle24_2x1) 0 0 \<and>
   (\<exists>e. readImageData ([0x82, 1, 2, 3] @ [9]) info_rle24_2x1 0 = Inl e) \<and>
   length ([] :: u8 list) \<le> 0 \<and>
   readImageData [] info_rle24_2x1 0 = Inr ([0, 0, 0, 0, 0, 0], 8) \<and>
   \<not> reachesOvershoot [0x81, 1] (pixelSize info_rle24_2x1) (pixelCount info_rle24_2x1) 0 0 \<and>
   \<not> (\<exists>e. readImageData [0x81, 1] info_rle24_2x1 0 = Inl e)"
proof -
  have len: "length tga_rgb24_truncated = 18"
    by (simp add: tga_rgb24_truncated_def sampleHeader_def)
  have f: "\<not> isRle (createTgaInfo (headerOf tga_rgb24_truncated))"
    "pixelCount (createTgaInfo (headerOf tga_rgb24_truncated)) = 1"
    "pixelSize (createTgaInfo (headerOf tga_rgb24_truncated)) = 3"
    by (simp_all add: createTgaInfo_def headerOf_def rawHeader_def tga_rgb24_truncated_def
          sampleHeader_def drop_bit_eq_div)
  note rle = info_rle24_2x1_fields(1)
  have ev: "readImageData [0x82, 1, 2, 3] info_rle24_2x1 0 = Inl RangeError" by code_simp
  have ev': "readImageData [] info_rle24_2x1 0 = Inr ([0, 0, 0, 0, 0, 0], 8)" by code_simp
  have ok: "readImageData [0x81, 1] info_rle24_2x1 0 = Inr ([1, 0, 0, 1, 0, 0], 4)" by code_simp
  note t1 = truncation_fails_only_in_header
               [of tga_rgb24_truncated "createTgaInfo (headerOf tga_rgb24_truncated)" 18]
  note t2 = truncation_fails_only_in_header [of "[0x82, 1, 2, 3]" info_rle24_2x1 0 "[9]"]
  note t3 = truncation_fails_only_in_header [of "[]" info_rle24_2x1 0]
  note t4 = truncation_fails_only_in_header [of "[0x81, 1]" info_rle24_2x1 0]
  from t1 have a: "\<not> (\<exists>s t. parseTgaData tga_rgb24_truncated = Inl (NoEnoughData s t))"
    by (simp add: len)
  from t1 f have b: "readImageData tga_rgb24_truncated
                       (createTgaInfo (headerOf tga_rgb24_truncated)) 18 = Inr ([], 21)"
    by (simp add: len)
  from t2 rle ev have c:
    "reachesOvershoot [0x82, 1, 2, 3] (pixelSize info_rle24_2x1) (pixelCount info_rle24_2x1) 0 0"
    "\<exists>e. readImageData ([0x82, 1, 2, 3] @ [9]) info_rle24_2x1 0 = Inl e"
    by blast+
  from t4 rle ok have d:
    "\<not> reachesOvershoot [0x81, 1] (pixelSize info_rle24_2x1) (pixelCount info_rle24_2x1) 0 0"
    "\<not> (\<exists>e. readImageData [0x81, 1] info_rle24_2x1 0 = Inl e)"
    by simp_all
  from t3 a b c d show ?thesis by (simp add: len f ev ev' rle)
qed

text \<open>
  Claim C3. When the decoder returns an image, its width and height are the width and
  height fields of the header (the little-endian words at offsets 12 and 14), and its
  pixel buffer has exactly \<open>width * height * 4\<close> bytes.
\<close>

theorem parseTgaData_dimensions:
  "parseTgaData data = Inr out \<Longrightarrow>
   readHeader data 0 = Inr (headerOf data, 18) \<and>
   TgaImage.width out = width (headerOf data) \<and>
   TgaImage.height out = height (headerOf data) \<and>
   length (imageData out) = width (headerOf data) * height (headerOf data) * 4 \<and>
   width (headerOf data) = unat (data ! 12) + 256 * unat (data ! 13) \<and>
   height (headerOf data) = unat (data ! 14) + 256 * unat (data ! 15)"
proof -
  assume ok: "parseTgaData data = Inr out"
  from parseTgaData_Inr [OF ok] have len: "18 \<le> length data"
    and rest: "TgaImage.width out = width (headerOf data)"
      "TgaImage.height out = height (headerOf data)"
      "length (imageData out) = width (headerOf data) * height (headerOf data) * 4"
    by simp_all
  from readHeader_ok [OF len] rest show ?thesis
    by (simp add: headerOf_def rawHeader_def)
qed

theorem parseTgaData_dimensions_witness:
  "parseTgaData tga_rgb24 =
     Inr \<lparr>imageData = [0x30, 0x20, 0x10, 255], width = 1, height = 1\<rparr> \<and>
   TgaImage.width \<lparr>imageData = [0x30, 0x20, 0x10, 255], width = 1, height = 1\<rparr>
     = width (headerOf tga_rgb24) \<and>
   TgaImage.height \<lparr>imageData = [0x30, 0x20, 0x10, 255], width = 1, height = 1\<rparr>
     = height (headerOf tga_rgb24) \<and>
   length (imageData \<lparr>imageData = [0x30, 0x20, 0x10, 255], width = 1, height = 1\<rparr>)
     = width (headerOf tga_rgb24) * height (headerOf tga_rgb24) * 4"
proof -
  have ok: "parseTgaData tga_rgb24 =
              Inr \<lparr>imageData = [0x30, 0x20, 0x10, 255], width = 1, height = 1\<rparr>"
    by code_simp
  from parseTgaData_dimensions [OF ok] ok show ?thesis
    by blast
qed

text \<open>
  Claim C4. On the run-length path the reader takes the source as a stream of packets:
  one header byte, whose low seven bits plus one are the count \<open>n\<close> (1 to 128); with
  the high bit set, one pixel of \<open>pixelSize\<close> bytes follows and is written \<open>n\<close> times to
  the output; with the high bit clear, \<open>n * pixelSize\<close> bytes follow and are copied to
  the output. For every sequence of such packets whose outputs add up to
  \<open>pixelCount * pixelSize\<close> bytes, wherever it starts in the source and whatever follows
  it, \<open>readImageData\<close> returns the concatenation of the packets' outputs and leaves the
  pointer just after the last packet. With a pixel size of 1, the stream \<open>0x81, 0xFF\<close>
  gives \<open>0xFF, 0xFF\<close>, and \<open>0x02, 0x10, 0x20, 0x30\<close> gives \<open>0x10, 0x20, 0x30\<close>.
\<close>

theorem rle_packets_expand:
  "isRle info \<Longrightarrow> 0 < pixelSize info \<Longrightarrow>
   \<forall>p \<in> set packets. wellFormed (pixelSize info) p \<Longrightarrow>
   length (concat (map packetOutput packets)) = pixelCount info * pixelSize info \<Longrightarrow>
   readImageData (pre @ concat (map packetBytes packets) @ post) info (length pre)
     = Inr (concat (map packetOutput packets),
            length pre + length (concat (map packetBytes packets))) \<and>
   readImageData [0x81, 0xFF] info_rle8_2x1 0 = Inr ([0xFF, 0xFF], 2) \<and>
   readImageData [0x02, 0x10, 0x20, 0x30] info_rle8_3x1 0 = Inr ([0x10, 0x20, 0x30], 4)"
proof -
  assume rle: "isRle info" and ps: "0 < pixelSize info"
    and wf: "\<forall>p \<in> set packets. wellFormed (pixelSize info) p"
    and len: "length (concat (map packetOutput packets)) = pixelCount info * pixelSize info"
  have "rleLoop (pre @ concat (map packetBytes packets) @ post) (pixelSize info) (pixelCount info)
          ([] @ replicate (pixelCount info * pixelSize info) 0) (length ([] :: u8 list)) (length pre)
        = Inr ([] @ concat (map packetOutput packets),
               length pre + length (concat (map packetBytes packets)))"
    using wf len by (intro rleLoop_packets [OF ps]) simp_all
  with rle have 1: "readImageData (pre @ concat (map packetBytes packets) @ post) info (length pre)
     = Inr (concat (map packetOutput packets),
            length pre + length (concat (map packetBytes packets)))"
    by (simp add: readImageData_def)
  have 2: "readImageData [0x81, 0xFF] info_rle8_2x1 0 = Inr ([0xFF, 0xFF], 2)"
    by code_simp
  have 3: "readImageData [0x02, 0x10, 0x20, 0x30] info_rle8_3x1 0 = Inr ([0x10, 0x20, 0x30], 4)"
    by code_simp
  from 1 2 3 show ?thesis by simp
qed

theorem rle_packets_expand_witness:
  "isRle info_rle24_2x1 \<and> 0 < pixelSize info_rle24_2x1 \<and>
   wellFormed (pixelSize info_rle24_2x1) (RawPacket 1 [1, 2, 3]) \<and>
   wellFormed (pixelSize info_rle24_2x1) (RunPacket 1 [4, 5, 6]) \<and>
   readImageData ([9, 9] @ [0x00, 1, 2, 3, 0x80, 4, 5, 6] @ [7]) info_rle24_2x1
       (length [9, 9 :: u8])
     = Inr ([1, 2, 3, 4, 5, 6], length [9, 9 :: u8] + length [0x00, 1, 2, 3, 0x80, 4, 5, 6 :: u8])"
  using rle_packets_expand
          [of info_rle24_2x1 "[RawPacket 1 [1, 2, 3], RunPacket 1 [4, 5, 6]]" "[9, 9]" "[7]"]
  by (simp add: info_rle24_2x1_fields)

text \<open>
  Claim C5. A pixel of two bytes of an image that is neither colour-mapped nor grey is
  read as a little-endian word \<open>w\<close>; red is bits 14 to 10, green bits 9 to 5, blue bits
  4 to 0 of \<open>w\<close>; each 5-bit channel \<open>v\<close> becomes \<open>(v << 3) | (v >> 2)\<close>, which is
  \<open>8 * v + v div 4\<close>; alpha is 255. The entry \<open>0x00, 0x7C\<close> (the word \<open>0x7C00\<close>, red
  31) has the red channel 255.
\<close>

theorem rgb555_pixel:
  "pixelSize info = 2 \<Longrightarrow> \<not> isIndexed info \<Longrightarrow> \<not> isGrey info \<Longrightarrow>
   index * 2 + 2 \<le> length rawImageData \<Longrightarrow>
   w = unat (rawImageData ! (index * 2)) + 256 * unat (rawImageData ! (index * 2 + 1)) \<Longrightarrow>
   r = (w div 2 ^ 10) mod 2 ^ 5 \<Longrightarrow> g = (w div 2 ^ 5) mod 2 ^ 5 \<Longrightarrow> b = w mod 2 ^ 5 \<Longrightarrow>
   getPixel info rawImageData colorMap index =
     Inr [Some (expand5 r), Some (expand5 g), Some (expand5 b), Some 255] \<and>
   expand5 r = 8 * r + r div 4 \<and> expand5 g = 8 * g + g div 4 \<and> expand5 b = 8 * b + b div 4 \<and>
   getColorFrom2ByteEntry [0x00, 0x7C] = [Some 255, Some 0, Some 0, Some 255]"
proof -
  assume ps: "pixelSize info = 2" and ni: "\<not> isIndexed info" and ng: "\<not> isGrey info"
    and len: "index * 2 + 2 \<le> length rawImageData"
    and w: "w = unat (rawImageData ! (index * 2)) + 256 * unat (rawImageData ! (index * 2 + 1))"
    and r: "r = (w div 2 ^ 10) mod 2 ^ 5" and g: "g = (w div 2 ^ 5) mod 2 ^ 5"
    and b: "b = w mod 2 ^ 5"
  have "getPixel info rawImageData colorMap index =
          Inr (getColorFrom2ByteEntry (subarray rawImageData (index * 2) (index * 2 + 2)))"
    using ps ni ng by (simp add: getPixel_def Let_def)
  also have "subarray rawImageData (index * 2) (index * 2 + 2)
               = [rawImageData ! (index * 2), rawImageData ! (index * 2 + 1)]"
    using len by (rule two_bytes)
  finally have px: "getPixel info rawImageData colorMap index =
     Inr [Some (expand5 r), Some (expand5 g), Some (expand5 b), Some 255]"
    by (simp add: getColorFrom2ByteEntry_word Let_def w r g b)
  have "r < 32" "g < 32" "b < 32" by (simp_all add: r g b)
  then have ex: "expand5 r = 8 * r + r div 4" "expand5 g = 8 * g + g div 4"
    "expand5 b = 8 * b + b div 4" by (simp_all add: expand5_arith)
  have red: "getColorFrom2ByteEntry [0x00, 0x7C] = [Some 255, Some 0, Some 0, Some 255]"
    by (simp add: getColorFrom2ByteEntry_def Let_def elemAt_def toInt32_def)
  from px ex red show ?thesis by simp
qed

theorem rgb555_pixel_witness:
  "pixelSize (createTgaInfo (headerOf tga_type0_16)) = 2 \<and>
   \<not> isIndexed (createTgaInfo (headerOf tga_type0_16)) \<and>
   \<not> isGrey (createTgaInfo (headerOf tga_type0_16)) \<and>
   0 * 2 + 2 \<le> length [0x00, 0x7C :: u8] \<and>
   getPixel (createTgaInfo (headerOf tga_type0_16)) [0x00, 0x7C] None 0
     = Inr [Some 255, Some 0, Some 0, Some 255]"
proof -
  have len: "0 * 2 + 2 \<le> length [0x00, 0x7C :: u8]" by simp
  from rgb555_pixel [OF info_type0_16 len refl refl refl refl, of None]
  show ?thesis by (simp add: info_type0_16 expand5_def)
qed

text \<open>
  Claim C6. A buffer shorter than 18 bytes makes \<open>readHeader\<close>, and with it the decoder,
  fail with the error of \<open>readItem\<close> at the first header field, in reading order, whose
  offset plus length exceeds the length of the buffer. \<open>readItem\<close> fails in this way
  whenever the end of the item lies past the end of the buffer, and the two bytes
  \<open>0x34, 0x12\<close> read as the little-endian value \<open>0x1234\<close>.
\<close>

theorem short_buffer_fails:
  "length data < 18 \<Longrightarrow>
   (\<exists>s l. find (\<lambda>(s, l). length data < s + l) headerLayout = Some (s, l) \<and>
          readHeader data 0 = Inl (NoEnoughData s (s + l)) \<and>
          parseTgaData data = Inl (NoEnoughData s (s + l))) \<and>
   (length d < p + n \<longrightarrow> readItem d p n = Inl (NoEnoughData p (p + n))) \<and>
   readItem [0x34, 0x12] 0 2 = Inr (0x1234, 2)"
proof -
  assume short: "length data < 18"
  from readHeader_short [OF short] obtain s l
    where f: "find (\<lambda>(s, l). length data < s + l) headerLayout = Some (s, l)"
      and r: "readHeader data 0 = Inl (NoEnoughData s (s + l))" by blast
  from r have "parseTgaData data = Inl (NoEnoughData s (s + l))"
    by (simp add: parseTgaData_def andThen_Inl)
  with f r have 1: "\<exists>s l. find (\<lambda>(s, l). length data < s + l) headerLayout = Some (s, l) \<and>
          readHeader data 0 = Inl (NoEnoughData s (s + l)) \<and>
          parseTgaData data = Inl (NoEnoughData s (s + l))" by blast
  have 2: "length d < p + n \<longrightarrow> readItem d p n = Inl (NoEnoughData p (p + n))"
    by (simp add: readItem_fails)
  have 3: "readItem [0x34, 0x12 :: u8] 0 2 = Inr (0x1234, 2)"
    by (simp add: readItem_2)
  from 1 2 3 show ?thesis by blast
qed

theorem short_buffer_fails_witness:
  "length [0, 0, 2 :: u8] < 18 \<and> parseTgaData [0, 0, 2] = Inl (NoEnoughData 3 5) \<and>
   readItem [0, 0, 2] 3 2 = Inl (NoEnoughData 3 5)"
  using short_buffer_fails [of "[0, 0, 2]" "[0, 0, 2]" 3 2]
  by (simp add: headerLayout_def)

text \<open>
  Claim C7, as stated, fails: the sample is a colour-mapped file whose colour map has one
  entry of three bytes and whose pixel has the index 5. The lookup does not fail;
  \<open>subarray\<close> clamps the view of the entry to the empty view, its bytes read as
  \<open>undefined\<close>, and the decoder returns the pixel \<open>(0, 0, 0, 255)\<close>.
\<close>

theorem palette_index_out_of_range_counterexample:
  "length [0xAA, 0xBB, 0xCC :: u8] \<le> 5 * colorMapEntrySize (createTgaInfo (headerOf tga_indexed_oob)) \<and>
   getColorMapPixel (createTgaInfo (headerOf tga_indexed_oob)) (Some [0xAA, 0xBB, 0xCC]) (Some 5)
     = Inr [None, None, None, Some 255] \<and>
   parseTgaData tga_indexed_oob = Inr \<lparr>imageData = [0, 0, 0, 255], width = 1, height = 1\<rparr>"
proof -
  have sz: "colorMapEntrySize (createTgaInfo (headerOf tga_indexed_oob)) = 3"
    by (simp add: createTgaInfo_def headerOf_def rawHeader_def tga_indexed_oob_def
          sampleHeader_def drop_bit_eq_div)
  have a: "getColorMapPixel (createTgaInfo (headerOf tga_indexed_oob))
             (Some [0xAA, 0xBB, 0xCC]) (Some 5) = Inr [None, None, None, Some 255]"
    by (simp add: getColorMapPixel_out_of_range sz)
  have b: "parseTgaData tga_indexed_oob
             = Inr \<lparr>imageData = [0, 0, 0, 255], width = 1, height = 1\<rparr>"
    by code_simp
  from sz a b show ?thesis by simp
qed

text \<open>
  Claim C7, amended. For a colour map that is present, an entry size of 2, 3 or 4 and an
  index with \<open>index * colorMapEntrySize\<close> at or past the length of the colour-map
  region, the lookup does not fail: it returns a colour that is stored as black,
  \<open>(0, 0, 0)\<close>, with alpha 255 (alpha 0 when the entry size is 4 and the alpha depth
  is 8).
\<close>

theorem palette_index_out_of_range:
  "colorMapEntrySize info \<in> {2, 3, 4} \<Longrightarrow> length cm \<le> i * colorMapEntrySize info \<Longrightarrow>
   \<exists>color. getColorMapPixel info (Some cm) (Some i) = Inr color \<and>
     map toUint8Clamp color =
       [0, 0, 0, if colorMapEntrySize info = 4 \<and> alphaDepth info = 8 then 0 else 255]"
proof -
  assume sz: "colorMapEntrySize info \<in> {2, 3, 4}"
    and oob: "length cm \<le> i * colorMapEntrySize info"
  from sz consider "colorMapEntrySize info = 2" | "colorMapEntrySize info = 3"
    | "colorMapEntrySize info = 4" by auto
  then show ?thesis
    by cases (simp_all add: getColorMapPixel_out_of_range [OF oob] toUint8Clamp_def)
qed

theorem palette_index_out_of_range_witness:
  "colorMapEntrySize (createTgaInfo (headerOf tga_indexed_oob)) \<in> {2, 3, 4} \<and>
   length [0xAA, 0xBB, 0xCC :: u8]
     \<le> 5 * colorMapEntrySize (createTgaInfo (headerOf tga_indexed_oob)) \<and>
   (\<exists>color. getColorMapPixel (createTgaInfo (headerOf tga_indexed_oob))
               (Some [0xAA, 0xBB, 0xCC]) (Some 5) = Inr color \<and>
            map toUint8Clamp color = [0, 0, 0, 255])"
proof -
  have sz: "colorMapEntrySize (createTgaInfo (headerOf tga_indexed_oob)) = 3"
    by (simp add: createTgaInfo_def headerOf_def rawHeader_def tga_indexed_oob_def
          sampleHeader_def drop_bit_eq_div)
  then have m: "colorMapEntrySize (createTgaInfo (headerOf tga_indexed_oob)) \<in> {2, 3, 4}"
    and l: "length [0xAA, 0xBB, 0xCC :: u8]
              \<le> 5 * colorMapEntrySize (createTgaInfo (headerOf tga_indexed_oob))"
    by simp_all
  from palette_index_out_of_range [OF m l] m l show ?thesis
    by (simp add: sz)
qed

text \<open>
  Claim C8. On the run-length path the output array is allocated with
  \<open>pixelCount * pixelSize\<close> bytes, and no store changes its length: a raw packet that
  runs past the end has its excess dropped (a store outside a typed array is ignored), a
  run-length packet that runs past the end raises the \<open>RangeError\<close> of
  \<open>TypedArray.prototype.set\<close>. So \<open>readImageData\<close> either fails with that error or
  returns an array of exactly \<open>pixelCount * pixelSize\<close> bytes.
\<close>

theorem rle_output_length:
  "isRle info \<Longrightarrow>
   (case readImageData data info pointer of
      Inl e \<Rightarrow> e = RangeError
    | Inr (result, pointer') \<Rightarrow> length result = pixelCount info * pixelSize info)"
proof -
  assume rle: "isRle info"
  show ?thesis
  proof (cases "readImageData data info pointer")
    case (Inl e)
    with rle have "rleLoop data (pixelSize info) (pixelCount info)
                     (replicate (pixelCount info * pixelSize info) 0) 0 pointer = Inl e"
      by (simp add: readImageData_def)
    from rleLoop_error [OF this] Inl show ?thesis by simp
  next
    case (Inr rp)
    obtain r p where rp: "rp = (r, p)" by (cases rp)
    with Inr rle have "rleLoop data (pixelSize info) (pixelCount info)
                     (replicate (pixelCount info * pixelSize info) 0) 0 pointer = Inr (r, p)"
      by (simp add: readImageData_def)
    from rleLoop_length [OF this] Inr rp show ?thesis by simp
  qed
qed

theorem rle_output_length_witness:
  "isRle info_rle24_2x1 \<and>
   readImageData [0x02, 1, 2, 3, 4, 5, 6, 7, 8, 9] info_rle24_2x1 0
     = Inr ([1, 2, 3, 4, 5, 6], 10) \<and>
   length [1, 2, 3, 4, 5, 6 :: u8] = pixelCount info_rle24_2x1 * pixelSize info_rle24_2x1"
proof -
  have ev: "readImageData [0x02, 1, 2, 3, 4, 5, 6, 7, 8, 9] info_rle24_2x1 0
     = Inr ([1, 2, 3, 4, 5, 6], 10)" by code_simp
  from rle_output_length [OF info_rle24_2x1_fields(1), of "[0x02, 1, 2, 3, 4, 5, 6, 7, 8, 9]" 0]
  show ?thesis by (simp add: ev info_rle24_2x1_fields)
qed

text \<open>
  Claim C9. For a buffer that holds the 18 header bytes, \<open>readHeader\<close> returns the header
  as stored, except that a colour-map entry depth stored as 15 is returned as 16; every
  other value of that field, and every other field, is returned as stored.
\<close>

theorem readHeader_normalizes_entry_depth:
  "18 \<le> length data \<Longrightarrow>
   readHeader data 0 =
     Inr ((rawHeader data)\<lparr>colorMapEntryDepth :=
            (if colorMapEntryDepth (rawHeader data) = 15 then 16
             else colorMapEntryDepth (rawHeader data))\<rparr>, 18)"
  using readHeader_ok [of data] by (simp add: headerOf_def rawHeader_def)

theorem readHeader_normalizes_entry_depth_witness:
  "18 \<le> length tga_depth15 \<and> colorMapEntryDepth (rawHeader tga_depth15) = 15 \<and>
   readHeader tga_depth15 0 = Inr ((rawHeader tga_depth15)\<lparr>colorMapEntryDepth := 16\<rparr>, 18)"
proof -
  have h: "18 \<le> length tga_depth15" by (simp add: tga_depth15_def sampleHeader_def)
  have d: "colorMapEntryDepth (rawHeader tga_depth15) = 15"
    by (simp add: rawHeader_def tga_depth15_def sampleHeader_def)
  from readHeader_normalizes_entry_depth [OF h] h d show ?thesis by simp
qed

text \<open>
  Claim C10. The field \<open>colorMapStart\<close> (header bytes 3 and 4) has no influence on the
  result: replacing these two bytes by any others leaves the result of the decoder
  unchanged, error or image. The palette lookup does not depend on the field: for an
  index \<open>i\<close> whose entry lies inside the colour-map region it reads the bytes at the
  offsets \<open>i * colorMapEntrySize\<close>, \<open>i * colorMapEntrySize + 1\<close>, ... of the region
  and returns, for an entry size of 3, the colour \<open>(byte 2, byte 1, byte 0, 255)\<close>, for
  an entry size of 4 the same with the alpha \<open>byte 3\<close> when the alpha depth is 8, and
  for an entry size of 2 the 5-5-5 colour of the little-endian word of the two bytes.
\<close>

theorem colorMapStart_unused:
  "parseTgaData (data[3 := a, 4 := b]) = parseTgaData data \<and>
   getColorMapPixel (info\<lparr>colorMapStart := s\<rparr>) colorMap index
     = getColorMapPixel info colorMap index \<and>
   getColorMapPixel info (Some cm) (Some i)
     = getColorMapPixel info
         (Some (take (colorMapEntrySize info) (drop (i * colorMapEntrySize info) cm))) (Some 0) \<and>
   (colorMapEntrySize info = 2 \<longrightarrow> i * 2 + 2 \<le> length cm \<longrightarrow>
      getColorMapPixel info (Some cm) (Some i) =
        (let w = unat (cm ! (i * 2)) + 256 * unat (cm ! (i * 2 + 1))
         in Inr [Some (expand5 ((w div 1024) mod 32)), Some (expand5 ((w div 32) mod 32)),
                 Some (expand5 (w mod 32)), Some 255])) \<and>
   (colorMapEntrySize info = 3 \<longrightarrow> i * 3 + 3 \<le> length cm \<longrightarrow>
      getColorMapPixel info (Some cm) (Some i) =
        Inr [Some (unat (cm ! (i * 3 + 2))), Some (unat (cm ! (i * 3 + 1))),
             Some (unat (cm ! (i * 3))), Some 255]) \<and>
   (colorMapEntrySize info = 4 \<longrightarrow> i * 4 + 4 \<le> length cm \<longrightarrow>
      getColorMapPixel info (Some cm) (Some i) =
        Inr [Some (unat (cm ! (i * 4 + 2))), Some (unat (cm ! (i * 4 + 1))),
             Some (unat (cm ! (i * 4))),
             if alphaDepth info = 8 then Some (unat (cm ! (i * 4 + 3))) else Some 255])"
proof -
  have 1: "parseTgaData (data[3 := a, 4 := b]) = parseTgaData data"
    by (rule parseTgaData_update_3_4)
  have 2: "getColorMapPixel (info\<lparr>colorMapStart := s\<rparr>) colorMap index
             = getColorMapPixel info colorMap index"
    by (rule getColorMapPixel_colorMapStart)
  have 3: "getColorMapPixel info (Some cm) (Some i)
     = getColorMapPixel info
         (Some (take (colorMapEntrySize info) (drop (i * colorMapEntrySize info) cm))) (Some 0)"
    by (simp add: getColorMapPixel_def Let_def subarray_eq)
  note 4 = getColorMapPixel_2 [of info i cm] and 5 = getColorMapPixel_3 [of info i cm]
    and 6 = getColorMapPixel_4 [of info i cm]
  from 1 2 3 4 5 6 show ?thesis by blast
qed

theorem colorMapStart_unused_witness:
  "colorMapEntrySize info_indexed16 = 2 \<and>
   1 * 2 + 2 \<le> length [0x00, 0x00, 0x00, 0x7C :: u8] \<and>
   getColorMapPixel info_indexed16 (Some [0x00, 0x00, 0x00, 0x7C]) (Some 1)
     = Inr [Some 255, Some 0, Some 0, Some 255] \<and>
   colorMapEntrySize info_indexed24 = 3 \<and>
   2 * 3 + 3 \<le> length [1, 2, 3, 4, 5, 6, 0xAA, 0xBB, 0xCC :: u8] \<and>
   getColorMapPixel info_indexed24 (Some [1, 2, 3, 4, 5, 6, 0xAA, 0xBB, 0xCC]) (Some 2)
     = Inr [Some 0xCC, Some 0xBB, Some 0xAA, Some 255] \<and>
   colorMapEntrySize info_indexed32 = 4 \<and>
   1 * 4 + 4 \<le> length [1, 2, 3, 4, 5, 6, 7, 8 :: u8] \<and>
   getColorMapPixel info_indexed32 (Some [1, 2, 3, 4, 5, 6, 7, 8]) (Some 1)
     = Inr [Some 7, Some 6, Some 5, Some 8]"
proof -
  note c = conjunct2 [THEN conjunct2, THEN conjunct2]
  have a: "getColorMapPixel info_indexed16 (Some [0x00, 0x00, 0x00, 0x7C]) (Some 1)
             = Inr [Some 255, Some 0, Some 0, Some 255]"
    using colorMapStart_unused
            [where info = info_indexed16 and cm = "[0x00, 0x00, 0x00, 0x7C]" and i = 1,
             THEN c, THEN conjunct1]
    by (simp add: info_indexed_fields Let_def expand5_def)
  have b: "getColorMapPixel info_indexed24 (Some [1, 2, 3, 4, 5, 6, 0xAA, 0xBB, 0xCC]) (Some 2)
             = Inr [Some 0xCC, Some 0xBB, Some 0xAA, Some 255]"
    using colorMapStart_unused
            [where info = info_indexed24 and cm = "[1, 2, 3, 4, 5, 6, 0xAA, 0xBB, 0xCC]"
               and i = 2, THEN c, THEN conjunct2, THEN conjunct1]
    by (simp add: info_indexed_fields)
  have c: "getColorMapPixel info_indexed32 (Some [1, 2, 3, 4, 5, 6, 7, 8]) (Some 1)
             = Inr [Some 7, Some 6, Some 5, Some 8]"
    using colorMapStart_unused
            [where info = info_indexed32 and cm = "[1, 2, 3, 4, 5, 6, 7, 8]" and i = 1,
             THEN c, THEN conjunct2, THEN conjunct2]
    by (simp add: info_indexed_fields)
  from a b c show ?thesis by (simp add: info_indexed_fields)
qed

end
